theory Spec2Isabelle
  imports
    Main
    "HOL-Library.Word"
    "HOL-Library.Sublist"
    "HOL-Library.Char_ord"
    "HOL-Library.List_Lexorder"
    "HOL-Library.Multiset"
begin

section \<open>Regular expressions of the executors package\<close>

text \<open>
  The package compiles four patterns with \<^verbatim>\<open>regexp.MustCompile\<close> and asks
  \<^verbatim>\<open>MatchString\<close> of them. Every pattern has the shape \<^verbatim>\<open>^body$\<close> with no flag, so
  \<^verbatim>\<open>MatchString\<close> holds exactly when the whole text matches the body. A Go string is a
  sequence of bytes, here a \<^typ>\<open>string\<close>; the classes \<^verbatim>\<open>\d\<close> and \<^verbatim>\<open>\w\<close> are the ASCII
  ones in Go, so no byte of a multi-byte rune is in any class.
\<close>

datatype rexp =
    Zero
  | One
  | Atom "char \<Rightarrow> bool"
  | Plus rexp rexp
  | Times rexp rexp
  | Star rexp

fun nullable :: "rexp \<Rightarrow> bool" where
  "nullable Zero = False"
| "nullable One = True"
| "nullable (Atom P) = False"
| "nullable (Plus r s) = (nullable r \<or> nullable s)"
| "nullable (Times r s) = (nullable r \<and> nullable s)"
| "nullable (Star r) = True"

fun deriv :: "char \<Rightarrow> rexp \<Rightarrow> rexp" where
  "deriv c Zero = Zero"
| "deriv c One = Zero"
| "deriv c (Atom P) = (if P c then One else Zero)"
| "deriv c (Plus r s) = Plus (deriv c r) (deriv c s)"
| "deriv c (Times r s) =
     (if nullable r then Plus (Times (deriv c r) s) (deriv c s) else Times (deriv c r) s)"
| "deriv c (Star r) = Times (deriv c r) (Star r)"

fun derivs :: "string \<Rightarrow> rexp \<Rightarrow> rexp" where
  "derivs [] r = r"
| "derivs (c # cs) r = derivs cs (deriv c r)"

definition MatchString :: "rexp \<Rightarrow> string \<Rightarrow> bool" where
  "MatchString r s = nullable (derivs s r)"

text \<open>The pieces the four patterns are written with.\<close>

fun lit :: "string \<Rightarrow> rexp" where
  "lit [] = One"
| "lit (c # cs) = Times (Atom (\<lambda>x. x = c)) (lit cs)"

definition opt :: "rexp \<Rightarrow> rexp" where
  "opt r = Plus r One"

definition plus1 :: "rexp \<Rightarrow> rexp" where
  "plus1 r = Times r (Star r)"

fun rep :: "nat \<Rightarrow> rexp \<Rightarrow> rexp" where
  "rep 0 r = One"
| "rep (Suc n) r = Times r (rep n r)"

definition isDigit :: "char \<Rightarrow> bool" where
  "isDigit c = (c \<in> set ''0123456789'')"

definition isWord :: "char \<Rightarrow> bool" where
  "isWord c =
     (c \<in> set ''0123456789ABCDEFGHIJKLMNOPQRSTUVWXYZ_abcdefghijklmnopqrstuvwxyz'')"

definition isEntity :: "char \<Rightarrow> bool" where
  "isEntity c = (isWord c \<or> c \<in> set ''+=,.@-'')"

definition mfaCodeRegex :: rexp where
  "mfaCodeRegex = rep 6 (Atom isDigit)"

definition mfaArnRegex :: rexp where
  "mfaArnRegex =
     Times (lit ''arn:aws'')
       (Times (opt (lit ''-us-gov''))
         (Times (lit '':iam::'')
           (Times (plus1 (Atom isDigit))
             (Times (lit '':mfa/'') (plus1 (Atom isEntity))))))"

definition iamEntityRegex :: rexp where
  "iamEntityRegex = plus1 (Atom isEntity)"

definition accountIDRegex :: rexp where
  "accountIDRegex = rep 12 (Atom isDigit)"

text \<open>
  The pattern the specification gives for the serial, with an account of twelve digits;
  it is not in the source and serves only to compare.
\<close>

definition spec_mfaArnRegex :: rexp where
  "spec_mfaArnRegex =
     Times (lit ''arn:aws'')
       (Times (opt (lit ''-us-gov''))
         (Times (lit '':iam::'')
           (Times (rep 12 (Atom isDigit))
             (Times (lit '':mfa/'') (plus1 (Atom isEntity))))))"

subsection \<open>The language of a pattern\<close>

definition conc :: "string set \<Rightarrow> string set \<Rightarrow> string set" where
  "conc A B = {u @ v | u v. u \<in> A \<and> v \<in> B}"

inductive_set star :: "string set \<Rightarrow> string set" for A :: "string set" where
  star_nil: "[] \<in> star A"
| star_app: "u \<in> A \<Longrightarrow> v \<in> star A \<Longrightarrow> u @ v \<in> star A"

fun lang :: "rexp \<Rightarrow> string set" where
  "lang Zero = {}"
| "lang One = {[]}"
| "lang (Atom P) = {[c] | c. P c}"
| "lang (Plus r s) = lang r \<union> lang s"
| "lang (Times r s) = conc (lang r) (lang s)"
| "lang (Star r) = star (lang r)"

section \<open>Errors\<close>

text \<open>
  Every failure of the two packages is a value here: the errors built with
  \<^verbatim>\<open>fmt.Errorf\<close> carry the string or number printed into the message, the errors of the
  identity service and of a prompt are opaque, and the run-time panic of an index
  expression out of range carries the index and the length.
\<close>

datatype error =
    LifetimeOutOfRange "64 word"
  | MfaSerialMalformed string
  | MfaCodeMalformed string
  | MissingRequiredKey string
  | NonUser string
  | ServiceError string
  | IndexOutOfRange nat nat

section \<open>Package executors: Lifetime and Mfa\<close>

text \<open>
  The methods have pointer receivers and assign to the fields, so each takes the object and
  returns it with its result. A setter returns \<^verbatim>\<open>error\<close> alone, here an
  \<^typ>\<open>error option\<close> with \<^const>\<open>None\<close> for \<^verbatim>\<open>nil\<close>; a getter returns a value
  and an error, here a sum. The calls of the logger leave no trace in the objects and are
  left out. \<^verbatim>\<open>int64\<close> is \<^typ>\<open>64 word\<close>, compared as a signed number.
\<close>

record Lifetime =
  lifetimeInt :: "64 word"

definition SetLifetime :: "Lifetime \<Rightarrow> 64 word \<Rightarrow> error option \<times> Lifetime" where
  "SetLifetime l val =
     (if val \<noteq> 0 \<and> (sint val < 900 \<or> sint val > 3600)
      then (Some (LifetimeOutOfRange val), l)
      else (None, l\<lparr>lifetimeInt := val\<rparr>))"

definition GetLifetime :: "Lifetime \<Rightarrow> (error + 64 word) \<times> Lifetime" where
  "GetLifetime l =
     (let l' = (if lifetimeInt l = 0 then l\<lparr>lifetimeInt := 3600\<rparr> else l)
      in (Inr (lifetimeInt l'), l'))"

text \<open>
  \<^verbatim>\<open>MfaPrompt\<close> is an interface; the package has one implementation and a caller may
  bring others, told apart here by a number. The field holds \<^verbatim>\<open>nil\<close> until one is set.
\<close>

datatype MfaPrompt = DefaultMfaPrompt | OtherMfaPrompt nat

record Mfa =
  useMfa :: bool
  mfaSerial :: string
  mfaCode :: string
  mfaPrompt :: "MfaPrompt option"

definition SetMfa :: "Mfa \<Rightarrow> bool \<Rightarrow> error option \<times> Mfa" where
  "SetMfa m val = (None, m\<lparr>useMfa := val\<rparr>)"

definition SetMfaSerial :: "Mfa \<Rightarrow> string \<Rightarrow> error option \<times> Mfa" where
  "SetMfaSerial m val =
     (if val = [] \<or> MatchString mfaArnRegex val
      then (None, m\<lparr>mfaSerial := val\<rparr>)
      else (Some (MfaSerialMalformed val), m))"

definition SetMfaCode :: "Mfa \<Rightarrow> string \<Rightarrow> error option \<times> Mfa" where
  "SetMfaCode m val =
     (if val = [] \<or> MatchString mfaCodeRegex val
      then (None, m\<lparr>mfaCode := val\<rparr>)
      else (Some (MfaCodeMalformed val), m))"

definition SetMfaPrompt :: "Mfa \<Rightarrow> MfaPrompt \<Rightarrow> error option \<times> Mfa" where
  "SetMfaPrompt m val = (None, m\<lparr>mfaPrompt := Some val\<rparr>)"

definition GetMfa :: "Mfa \<Rightarrow> (error + bool) \<times> Mfa" where
  "GetMfa m =
     (let m' = (if \<not> useMfa m \<and> mfaCode m \<noteq> [] then m\<lparr>useMfa := True\<rparr> else m)
      in (Inr (useMfa m'), m'))"

definition GetMfaPrompt :: "Mfa \<Rightarrow> (error + MfaPrompt) \<times> Mfa" where
  "GetMfaPrompt m =
     (case mfaPrompt m of
        None \<Rightarrow> (Inr DefaultMfaPrompt, m\<lparr>mfaPrompt := Some DefaultMfaPrompt\<rparr>)
      | Some p \<Rightarrow> (Inr p, m))"

section \<open>Strings and maps of the Go library\<close>

text \<open>
  \<^verbatim>\<open>strings.Index\<close>, \<^verbatim>\<open>Contains\<close>, \<^verbatim>\<open>Replace\<close> and \<^verbatim>\<open>Split\<close>, after their
  documentation; the package calls them with the separators \<^verbatim>\<open>":user/"\<close> and \<^verbatim>\<open>":"\<close>.
  With an empty separator Go cuts the text between runes, which is between bytes for ASCII.
\<close>

fun Index :: "string \<Rightarrow> string \<Rightarrow> nat option" where
  "Index [] substr = (if substr = [] then Some 0 else None)"
| "Index (c # cs) substr =
     (if prefix substr (c # cs) then Some 0 else map_option Suc (Index cs substr))"

definition Contains :: "string \<Rightarrow> string \<Rightarrow> bool" where
  "Contains s substr = (Index s substr \<noteq> None)"

fun Replace :: "string \<Rightarrow> string \<Rightarrow> string \<Rightarrow> nat \<Rightarrow> string" where
  "Replace s old new 0 = s"
| "Replace s old new (Suc n) =
     (case Index s old of
        None \<Rightarrow> s
      | Some i \<Rightarrow> take i s @ new @ Replace (drop (i + length old) s) old new n)"

function Split :: "string \<Rightarrow> string \<Rightarrow> string list" where
  "Split s sep =
     (if sep = [] then map (\<lambda>c. [c]) s
      else case Index s sep of
             None \<Rightarrow> [s]
           | Some m \<Rightarrow> take m s # Split (drop (m + length sep) s) sep)"
  by pat_completeness auto
termination
proof (relation "measure (\<lambda>(s, sep). length s)")
  show "wf (measure (\<lambda>(s, sep). length s))" by simp
next
  fix s sep :: string and m :: nat
  assume sep: "sep \<noteq> []" and idx: "Index s sep = Some m"
  from sep idx have "s \<noteq> []" by (cases s) auto
  with sep show "((drop (m + length sep) s, sep), (s, sep)) \<in> measure (\<lambda>(s, sep). length s)"
    by simp
qed

declare Split.simps [simp del]

text \<open>
  A Go map with string values is a partial map; indexing it at a missing key gives the
  empty string. A \<^verbatim>\<open>range\<close> loop visits every key once, in an order the language
  leaves open and varies from one run to the next: the model takes the order as an
  argument, and \<open>keyOrder m ks\<close> says that \<open>ks\<close> is such an order for the map \<open>m\<close>.
\<close>

definition mapIndex :: "(string \<rightharpoonup> string) \<Rightarrow> string \<Rightarrow> string" where
  "mapIndex m k = (case m k of None \<Rightarrow> [] | Some v \<Rightarrow> v)"

definition keyOrder :: "(string \<rightharpoonup> string) \<Rightarrow> string list \<Rightarrow> bool" where
  "keyOrder m ks = (distinct ks \<and> set ks = dom m)"

definition Getenv :: "(string \<rightharpoonup> string) \<Rightarrow> string \<Rightarrow> string" where
  "Getenv env k = mapIndex env k"

section \<open>Package creds\<close>

record Creds =
  AccessKey :: string
  SecretKey :: string
  SessionToken :: string
  Region :: string

definition required :: "string list" where
  "required = [''AccessKey'', ''SecretKey'', ''SessionToken'']"

fun requiredLoop :: "(string \<rightharpoonup> string) \<Rightarrow> string list \<Rightarrow> error option" where
  "requiredLoop argCreds [] = None"
| "requiredLoop argCreds (key # keys) =
     (case argCreds key of
        None \<Rightarrow> Some (MissingRequiredKey key)
      | Some elem \<Rightarrow>
          if elem = [] then Some (MissingRequiredKey key) else requiredLoop argCreds keys)"

definition New :: "(string \<rightharpoonup> string) \<Rightarrow> error + Creds" where
  "New argCreds =
     (case requiredLoop argCreds required of
        Some e \<Rightarrow> Inl e
      | None \<Rightarrow>
          Inr \<lparr>AccessKey = mapIndex argCreds ''AccessKey'',
               SecretKey = mapIndex argCreds ''SecretKey'',
               SessionToken = mapIndex argCreds ''SessionToken'',
               Region = mapIndex argCreds ''Region''\<rparr>)"

definition Translations_envvar :: "string \<rightharpoonup> string" where
  "Translations_envvar =
     [''AWS_ACCESS_KEY_ID'' \<mapsto> ''AccessKey'',
      ''AWS_SECRET_ACCESS_KEY'' \<mapsto> ''SecretKey'',
      ''AWS_SESSION_TOKEN'' \<mapsto> ''SessionToken'',
      ''AWS_SECURITY_TOKEN'' \<mapsto> ''SessionToken'',
      ''AWS_DEFAULT_REGION'' \<mapsto> ''Region'']"

definition Translations_console :: "string \<rightharpoonup> string" where
  "Translations_console =
     [''sessionId'' \<mapsto> ''AccessKey'',
      ''sessionKey'' \<mapsto> ''SecretKey'',
      ''sessionToken'' \<mapsto> ''SessionToken'']"

text \<open>
  \<^verbatim>\<open>NewFromEnv\<close> ranges over \<^verbatim>\<open>Translations["envvar"]\<close>; \<open>ks\<close> is the order of that
  loop and \<open>env\<close> the environment of the process.
\<close>

fun NewFromEnvLoop ::
  "(string \<rightharpoonup> string) \<Rightarrow> (string \<rightharpoonup> string) \<Rightarrow> string list \<Rightarrow> (string \<rightharpoonup> string)" where
  "NewFromEnvLoop env envCreds [] = envCreds"
| "NewFromEnvLoop env envCreds (k # ks) =
     (let v = mapIndex Translations_envvar k
      in NewFromEnvLoop env
           (if mapIndex envCreds v = [] then envCreds(v \<mapsto> Getenv env k) else envCreds) ks)"

definition NewFromEnv :: "(string \<rightharpoonup> string) \<Rightarrow> string list \<Rightarrow> error + Creds" where
  "NewFromEnv env ks = New (NewFromEnvLoop env Map.empty ks)"

definition toMap :: "Creds \<Rightarrow> (string \<rightharpoonup> string)" where
  "toMap c =
     [''AccessKey'' \<mapsto> AccessKey c,
      ''SecretKey'' \<mapsto> SecretKey c,
      ''SessionToken'' \<mapsto> SessionToken c,
      ''Region'' \<mapsto> Region c]"

fun TranslateLoop ::
  "(string \<rightharpoonup> string) \<Rightarrow> (string \<rightharpoonup> string) \<Rightarrow> (string \<rightharpoonup> string) \<Rightarrow> string list
     \<Rightarrow> (string \<rightharpoonup> string)" where
  "TranslateLoop dictionary old new [] = new"
| "TranslateLoop dictionary old new (k # ks) =
     (let v = mapIndex dictionary k
      in TranslateLoop dictionary old (new(k \<mapsto> mapIndex old v)) ks)"

definition Translate :: "Creds \<Rightarrow> (string \<rightharpoonup> string) \<Rightarrow> string list \<Rightarrow> (string \<rightharpoonup> string)" where
  "Translate c dictionary ks = TranslateLoop dictionary (toMap c) Map.empty ks"

text \<open>
  \<^verbatim>\<open>ToEnvVars\<close> has two loops: the one of \<^verbatim>\<open>Translate\<close> over the table, in the order
  \<open>ks\<close>, and its own over the translated map, in the order \<open>ks'\<close>. \<^verbatim>\<open>sort.Strings\<close>
  sorts in increasing order of the bytes, the order of \<^typ>\<open>string\<close> here.
\<close>

fun ToEnvVarsLoop :: "(string \<rightharpoonup> string) \<Rightarrow> string list \<Rightarrow> string list \<Rightarrow> string list" where
  "ToEnvVarsLoop envCreds res [] = res"
| "ToEnvVarsLoop envCreds res (k # ks) =
     (let v = mapIndex envCreds k
      in ToEnvVarsLoop envCreds
           (if v \<noteq> [] then res @ [''export '' @ k @ ''='' @ v] else res) ks)"

definition ToEnvVars :: "Creds \<Rightarrow> string list \<Rightarrow> string list \<Rightarrow> string list" where
  "ToEnvVars c ks ks' =
     (let envCreds = Translate c Translations_envvar ks
      in sort (ToEnvVarsLoop envCreds [] ks'))"

subsection \<open>The identity of the caller\<close>

text \<open>
  \<^verbatim>\<open>identity\<close> asks the service who the caller is. The service is outside the program:
  \<open>svc c n\<close> is its answer to the call number \<open>n\<close> made with the credentials \<open>c\<close>, and
  the count of the calls made so far is the state the functions pass on. An answer holds
  the account and the ARN. The program reads \<^verbatim>\<open>pieces[1]\<close> with no check of its own; the
  check of the index is the one the run time makes, and its failure is the panic
  \<^const>\<open>IndexOutOfRange\<close> with the index and the length.
\<close>

record GetCallerIdentityOutput =
  Account :: string
  Arn :: string

type_synonym sts = "Creds \<Rightarrow> nat \<Rightarrow> error + GetCallerIdentityOutput"

definition identity :: "sts \<Rightarrow> Creds \<Rightarrow> nat \<Rightarrow> (error + GetCallerIdentityOutput) \<times> nat" where
  "identity svc c calls = (svc c calls, Suc calls)"

definition partition :: "sts \<Rightarrow> Creds \<Rightarrow> nat \<Rightarrow> (error + string) \<times> nat" where
  "partition svc c calls =
     (case identity svc c calls of
        (Inl err, calls') \<Rightarrow> (Inl err, calls')
      | (Inr ident, calls') \<Rightarrow>
          (let pieces = Split (Arn ident) '':''
           in if 1 < length pieces then (Inr (pieces ! 1), calls')
              else (Inl (IndexOutOfRange 1 (length pieces)), calls')))"

definition MfaArn :: "sts \<Rightarrow> Creds \<Rightarrow> nat \<Rightarrow> (error + string) \<times> nat" where
  "MfaArn svc c calls =
     (case identity svc c calls of
        (Inl err, calls') \<Rightarrow> (Inl err, calls')
      | (Inr ident, calls') \<Rightarrow>
          if \<not> Contains (Arn ident) '':user/'' then (Inl (NonUser (Arn ident)), calls')
          else (Inr (Replace (Arn ident) '':user/'' '':mfa/'' 1), calls'))"

subsection \<open>The getters of Mfa that reach outside\<close>

text \<open>
  \<^verbatim>\<open>GetMfaSerial\<close> asks \<^verbatim>\<open>MfaArn\<close> of the empty credentials when no serial is stored,
  and assigns what it returns, the empty string beside an error. \<^verbatim>\<open>GetMfaCode\<close> asks
  the prompt; \<open>ask p\<close> is what the prompt \<open>p\<close> returns.
\<close>

definition emptyCreds :: Creds where
  "emptyCreds = \<lparr>AccessKey = [], SecretKey = [], SessionToken = [], Region = []\<rparr>"

definition GetMfaSerial :: "sts \<Rightarrow> Mfa \<Rightarrow> nat \<Rightarrow> (error + string) \<times> Mfa \<times> nat" where
  "GetMfaSerial svc m calls =
     (if mfaSerial m = [] then
        (case MfaArn svc emptyCreds calls of
           (Inl err, calls') \<Rightarrow> (Inl err, m\<lparr>mfaSerial := []\<rparr>, calls')
         | (Inr arn, calls') \<Rightarrow> (Inr arn, m\<lparr>mfaSerial := arn\<rparr>, calls'))
      else (Inr (mfaSerial m), m, calls))"

definition GetMfaCode :: "(MfaPrompt \<Rightarrow> error + string) \<Rightarrow> Mfa \<Rightarrow> (error + string) \<times> Mfa" where
  "GetMfaCode ask m =
     (if mfaCode m = [] then
        (case GetMfaPrompt m of
           (Inl err, m') \<Rightarrow> (Inl err, m')
         | (Inr p, m') \<Rightarrow>
             (case ask p of
                Inl err \<Rightarrow> (Inl err, m')
              | Inr mfa \<Rightarrow> (Inr mfa, m'\<lparr>mfaCode := mfa\<rparr>)))
      else (Inr (mfaCode m), m))"

text \<open>
  A caller holds one \<^verbatim>\<open>Mfa\<close> and calls its methods one after the other; \<open>run\<close> does
  so and returns the object and the count of identity calls at the end.
\<close>

datatype call =
    CallSetMfa bool
  | CallSetMfaSerial string
  | CallSetMfaCode string
  | CallSetMfaPrompt MfaPrompt
  | CallGetMfa
  | CallGetMfaSerial
  | CallGetMfaCode
  | CallGetMfaPrompt

fun step :: "sts \<Rightarrow> (MfaPrompt \<Rightarrow> error + string) \<Rightarrow> call \<Rightarrow> Mfa \<times> nat \<Rightarrow> Mfa \<times> nat" where
  "step svc ask (CallSetMfa b) (m, calls) = (snd (SetMfa m b), calls)"
| "step svc ask (CallSetMfaSerial s) (m, calls) = (snd (SetMfaSerial m s), calls)"
| "step svc ask (CallSetMfaCode s) (m, calls) = (snd (SetMfaCode m s), calls)"
| "step svc ask (CallSetMfaPrompt p) (m, calls) = (snd (SetMfaPrompt m p), calls)"
| "step svc ask CallGetMfa (m, calls) = (snd (GetMfa m), calls)"
| "step svc ask CallGetMfaSerial (m, calls) = snd (GetMfaSerial svc m calls)"
| "step svc ask CallGetMfaCode (m, calls) = (snd (GetMfaCode ask m), calls)"
| "step svc ask CallGetMfaPrompt (m, calls) = (snd (GetMfaPrompt m), calls)"

fun run :: "sts \<Rightarrow> (MfaPrompt \<Rightarrow> error + string) \<Rightarrow> call list \<Rightarrow> Mfa \<times> nat \<Rightarrow> Mfa \<times> nat" where
  "run svc ask [] st = st"
| "run svc ask (x # xs) st = run svc ask xs (step svc ask x st)"

subsection \<open>The older copy in package utils\<close>

text \<open>
  Package \<^verbatim>\<open>utils\<close> holds an older copy of the credentials: three fields and no region, the
  same check of the required keys in \<^verbatim>\<open>New\<close> (a method that fills its receiver), a table
  without the region, and a \<^verbatim>\<open>ToEnvVars\<close> that appends a line for every variable,
  empty or not.
\<close>

record utils_Creds =
  utils_AccessKey :: string
  utils_SecretKey :: string
  utils_SessionToken :: string

definition utils_New :: "utils_Creds \<Rightarrow> (string \<rightharpoonup> string) \<Rightarrow> error option \<times> utils_Creds" where
  "utils_New c argCreds =
     (case requiredLoop argCreds required of
        Some e \<Rightarrow> (Some e, c)
      | None \<Rightarrow>
          (None, c\<lparr>utils_AccessKey := mapIndex argCreds ''AccessKey'',
                    utils_SecretKey := mapIndex argCreds ''SecretKey'',
                    utils_SessionToken := mapIndex argCreds ''SessionToken''\<rparr>))"

definition utils_translations_envvar :: "string \<rightharpoonup> string" where
  "utils_translations_envvar =
     [''AWS_ACCESS_KEY_ID'' \<mapsto> ''AccessKey'',
      ''AWS_SECRET_ACCESS_KEY'' \<mapsto> ''SecretKey'',
      ''AWS_SESSION_TOKEN'' \<mapsto> ''SessionToken'',
      ''AWS_SECURITY_TOKEN'' \<mapsto> ''SessionToken'']"

definition utils_toMap :: "utils_Creds \<Rightarrow> (string \<rightharpoonup> string)" where
  "utils_toMap c =
     [''AccessKey'' \<mapsto> utils_AccessKey c,
      ''SecretKey'' \<mapsto> utils_SecretKey c,
      ''SessionToken'' \<mapsto> utils_SessionToken c]"

definition utils_translate ::
  "utils_Creds \<Rightarrow> (string \<rightharpoonup> string) \<Rightarrow> string list \<Rightarrow> (string \<rightharpoonup> string)" where
  "utils_translate c dictionary ks = TranslateLoop dictionary (utils_toMap c) Map.empty ks"

fun utils_ToEnvVarsLoop ::
  "(string \<rightharpoonup> string) \<Rightarrow> string list \<Rightarrow> string list \<Rightarrow> string list" where
  "utils_ToEnvVarsLoop envCreds res [] = res"
| "utils_ToEnvVarsLoop envCreds res (k # ks) =
     (let v = mapIndex envCreds k
      in utils_ToEnvVarsLoop envCreds (res @ [''export '' @ k @ ''='' @ v]) ks)"

definition utils_ToEnvVars :: "utils_Creds \<Rightarrow> string list \<Rightarrow> string list \<Rightarrow> string list" where
  "utils_ToEnvVars c ks ks' =
     (let envCreds = utils_translate c utils_translations_envvar ks
      in sort (utils_ToEnvVarsLoop envCreds [] ks'))"

subsection \<open>Objects of the examples\<close>

text \<open>
  The zero values of the two objects, as \<^verbatim>\<open>Lifetime{}\<close> and \<^verbatim>\<open>Mfa{}\<close> give them, and
  an \<^verbatim>\<open>Mfa\<close> with every field set.
\<close>

definition freshLifetime :: Lifetime where
  "freshLifetime = \<lparr>lifetimeInt = 0\<rparr>"

definition freshMfa :: Mfa where
  "freshMfa = \<lparr>useMfa = False, mfaSerial = [], mfaCode = [], mfaPrompt = None\<rparr>"

definition someMfa :: Mfa where
  "someMfa =
     \<lparr>useMfa = True, mfaSerial = ''arn:aws:iam::123456789012:mfa/alice'',
      mfaCode = ''123456'', mfaPrompt = Some DefaultMfaPrompt\<rparr>"

definition codeMfa :: Mfa where
  "codeMfa = \<lparr>useMfa = False, mfaSerial = [], mfaCode = ''123456'', mfaPrompt = None\<rparr>"

text \<open>
  Three identity services: one answers with the ARN of a user, one with the ARN of a role,
  one with a text that has no colon. A prompt that fails stands for the end of the input.
\<close>

definition userService :: sts where
  "userService c n =
     Inr \<lparr>Account = ''111111111111'', Arn = ''arn:aws:iam::111111111111:user/alice''\<rparr>"

definition roleService :: sts where
  "roleService c n =
     Inr \<lparr>Account = ''111111111111'', Arn = ''arn:aws:iam::111111111111:role/foo''\<rparr>"

definition brokenService :: sts where
  "brokenService c n = Inr \<lparr>Account = ''111111111111'', Arn = ''root''\<rparr>"

definition silentPrompt :: "MfaPrompt \<Rightarrow> error + string" where
  "silentPrompt p = Inl (ServiceError ''EOF'')"

text \<open>
  A field map with every key, an environment with both token variables set, the
  credentials of the example, and three orders in which a loop may visit the table of the
  environment variables: the order of the source text, its reverse, and the sorted one.
\<close>

definition fullFields :: "string \<rightharpoonup> string" where
  "fullFields =
     [''AccessKey'' \<mapsto> ''AK'', ''SecretKey'' \<mapsto> ''SK'', ''SessionToken'' \<mapsto> ''ST'',
      ''Region'' \<mapsto> ''us-east-1'']"

definition twoTokens :: "string \<rightharpoonup> string" where
  "twoTokens =
     [''AWS_ACCESS_KEY_ID'' \<mapsto> ''AK'', ''AWS_SECRET_ACCESS_KEY'' \<mapsto> ''SK'',
      ''AWS_SESSION_TOKEN'' \<mapsto> ''ST1'', ''AWS_SECURITY_TOKEN'' \<mapsto> ''ST2'']"

definition exampleCreds :: Creds where
  "exampleCreds = \<lparr>AccessKey = ''AK'', SecretKey = ''SK'', SessionToken = ''ST'', Region = []\<rparr>"

definition envOrderA :: "string list" where
  "envOrderA =
     [''AWS_ACCESS_KEY_ID'', ''AWS_SECRET_ACCESS_KEY'', ''AWS_SESSION_TOKEN'',
      ''AWS_SECURITY_TOKEN'', ''AWS_DEFAULT_REGION'']"

definition envOrderB :: "string list" where
  "envOrderB =
     [''AWS_DEFAULT_REGION'', ''AWS_SECURITY_TOKEN'', ''AWS_SESSION_TOKEN'',
      ''AWS_SECRET_ACCESS_KEY'', ''AWS_ACCESS_KEY_ID'']"

definition envOrderSorted :: "string list" where
  "envOrderSorted =
     [''AWS_ACCESS_KEY_ID'', ''AWS_DEFAULT_REGION'', ''AWS_SECRET_ACCESS_KEY'',
      ''AWS_SECURITY_TOKEN'', ''AWS_SESSION_TOKEN'']"

text \<open>
  The zero value of the older credentials and an order of the older table.
\<close>

definition utils_zero :: utils_Creds where
  "utils_zero = \<lparr>utils_AccessKey = [], utils_SecretKey = [], utils_SessionToken = []\<rparr>"

definition utils_order :: "string list" where
  "utils_order =
     [''AWS_ACCESS_KEY_ID'', ''AWS_SECRET_ACCESS_KEY'', ''AWS_SESSION_TOKEN'',
      ''AWS_SECURITY_TOKEN'']"

text \<open>
  The specification has the first value seen win for a field. In its words: the first
  variable of a list that is set to a non-empty value gives the value, and the empty string
  stands when there is none.
\<close>

fun spec_firstNonEmpty :: "(string \<rightharpoonup> string) \<Rightarrow> string list \<Rightarrow> string" where
  "spec_firstNonEmpty env [] = []"
| "spec_firstNonEmpty env (k # ks) =
     (if Getenv env k \<noteq> [] then Getenv env k else spec_firstNonEmpty env ks)"

section \<open>What the patterns match\<close>

text \<open>
  Matching by derivatives decides membership in the language of the pattern; from there
  each pattern of the package gets a description in terms of the text alone.
\<close>

lemma Cons_in_conc:
  "c # w \<in> conc A B \<longleftrightarrow>
     ([] \<in> A \<and> c # w \<in> B) \<or> (\<exists>u v. w = u @ v \<and> c # u \<in> A \<and> v \<in> B)"
  by (auto simp: conc_def Cons_eq_append_conv) 

lemma Nil_in_conc: "[] \<in> conc A B \<longleftrightarrow> [] \<in> A \<and> [] \<in> B"
  by (auto simp: conc_def)

lemma star_Cons_elim:
  assumes "x \<in> star A" and "x = c # w"
  shows "\<exists>u v. w = u @ v \<and> c # u \<in> A \<and> v \<in> star A"
  using assms
proof (induction arbitrary: rule: star.induct)
  case star_nil
  then show ?case by simp
next
  case (star_app u v)
  show ?case
  proof (cases u)
    case Nil
    with star_app show ?thesis by simp
  next
    case (Cons d u')
    with star_app.prems have "d = c" and "w = u' @ v" by simp_all
    with star_app.hyps Cons show ?thesis by blast
  qed
qed

lemma Cons_in_star:
  "c # w \<in> star A \<longleftrightarrow> (\<exists>u v. w = u @ v \<and> c # u \<in> A \<and> v \<in> star A)"
proof
  assume "c # w \<in> star A"
  then show "\<exists>u v. w = u @ v \<and> c # u \<in> A \<and> v \<in> star A"
    by (rule star_Cons_elim) simp
next
  assume "\<exists>u v. w = u @ v \<and> c # u \<in> A \<and> v \<in> star A"
  then obtain u v where "w = u @ v" "c # u \<in> A" "v \<in> star A" by blast
  then show "c # w \<in> star A"
    using star_app [of "c # u" A v] by simp
qed

lemma mem_conc: "w \<in> conc A B \<longleftrightarrow> (\<exists>u v. w = u @ v \<and> u \<in> A \<and> v \<in> B)"
  by (auto simp: conc_def)

lemma nullable_lang: "nullable r \<longleftrightarrow> [] \<in> lang r"
  by (induction r) (auto simp: Nil_in_conc intro: star_nil)

lemma deriv_conc:
  "{w. c # w \<in> conc A B} =
     conc {w. c # w \<in> A} B \<union> (if [] \<in> A then {w. c # w \<in> B} else {})"
proof (rule set_eqI)
  fix w
  have "w \<in> conc {w. c # w \<in> A} B \<longleftrightarrow> (\<exists>u v. w = u @ v \<and> c # u \<in> A \<and> v \<in> B)"
    by (simp add: mem_conc)
  then show "w \<in> {w. c # w \<in> conc A B} \<longleftrightarrow>
      w \<in> conc {w. c # w \<in> A} B \<union> (if [] \<in> A then {w. c # w \<in> B} else {})"
    by (simp add: Cons_in_conc) blast
qed

lemma deriv_star: "{w. c # w \<in> star A} = conc {w. c # w \<in> A} (star A)"
proof (rule set_eqI)
  fix w
  have "w \<in> conc {w. c # w \<in> A} (star A) \<longleftrightarrow>
      (\<exists>u v. w = u @ v \<and> c # u \<in> A \<and> v \<in> star A)"
    by (simp add: mem_conc)
  then show "w \<in> {w. c # w \<in> star A} \<longleftrightarrow> w \<in> conc {w. c # w \<in> A} (star A)"
    by (simp add: Cons_in_star)
qed

lemma lang_deriv: "lang (deriv c r) = {w. c # w \<in> lang r}"
proof (induction r)
  case (Times r s)
  then show ?case
    by (simp add: deriv_conc nullable_lang Un_commute)
next
  case (Star r)
  then show ?case
    by (simp add: deriv_star)
qed auto

lemma lang_derivs: "lang (derivs s r) = {w. s @ w \<in> lang r}"
  by (induction s arbitrary: r) (simp_all add: lang_deriv)

lemma MatchString_lang: "MatchString r s \<longleftrightarrow> s \<in> lang r"
  by (simp add: MatchString_def nullable_lang lang_derivs)

lemma mem_conc_Atom:
  "w \<in> conc (lang (Atom P)) B \<longleftrightarrow> (\<exists>c v. w = c # v \<and> P c \<and> v \<in> B)"
proof
  assume "w \<in> conc (lang (Atom P)) B"
  then obtain u v where "w = u @ v" and "u \<in> lang (Atom P)" and "v \<in> B"
    unfolding mem_conc by blast
  then show "\<exists>c v. w = c # v \<and> P c \<and> v \<in> B" by auto
next
  assume "\<exists>c v. w = c # v \<and> P c \<and> v \<in> B"
  then obtain c v where w: "w = c # v" and c: "P c" and v: "v \<in> B" by blast
  from c have "[c] \<in> lang (Atom P)" by simp
  moreover from w have "w = [c] @ v" by simp
  ultimately show "w \<in> conc (lang (Atom P)) B"
    unfolding mem_conc using v by blast
qed

lemma lang_lit: "lang (lit s) = {s}"
proof (induction s)
  case Nil
  show ?case by simp
next
  case (Cons c cs)
  have "w \<in> lang (lit (c # cs)) \<longleftrightarrow> w = c # cs" for w
    unfolding lit.simps lang.simps(5) mem_conc_Atom Cons by auto
  then show ?case by blast
qed

lemma mem_star_Atom: "w \<in> star (lang (Atom P)) \<longleftrightarrow> list_all P w"
proof
  assume "w \<in> star (lang (Atom P))"
  then show "list_all P w"
    by (induction rule: star.induct) auto
next
  assume "list_all P w"
  then show "w \<in> star (lang (Atom P))"
  proof (induction w)
    case Nil
    show ?case by (rule star_nil)
  next
    case (Cons c w)
    then have "[c] \<in> lang (Atom P)" and "w \<in> star (lang (Atom P))" by auto
    then have "[c] @ w \<in> star (lang (Atom P))" by (rule star_app)
    then show ?case by simp
  qed
qed

lemma mem_lang_plus1_Atom: "w \<in> lang (plus1 (Atom P)) \<longleftrightarrow> w \<noteq> [] \<and> list_all P w"
  unfolding plus1_def lang.simps(5,6) mem_conc_Atom mem_star_Atom
  by (cases w) auto

lemma mem_lang_rep_Atom: "w \<in> lang (rep n (Atom P)) \<longleftrightarrow> length w = n \<and> list_all P w"
proof (induction n arbitrary: w)
  case 0
  show ?case by auto
next
  case (Suc n)
  show ?case
    unfolding rep.simps lang.simps(5) mem_conc_Atom Suc
    by (cases w) auto
qed

lemma lang_opt: "lang (opt r) = insert [] (lang r)"
  by (auto simp: opt_def)

lemma concE:
  assumes "w \<in> conc A B"
  obtains u v where "w = u @ v" and "u \<in> A" and "v \<in> B"
  using assms unfolding mem_conc by blast

lemma concI: "u \<in> A \<Longrightarrow> v \<in> B \<Longrightarrow> u @ v \<in> conc A B"
  unfolding mem_conc by blast

lemma arn_shape:
  "s \<in> conc {a} (conc (insert [] {g0}) (conc {b} (conc D (conc {e} E)))) \<longleftrightarrow>
     (\<exists>g ds ns. s = a @ g @ b @ ds @ e @ ns \<and> (g = [] \<or> g = g0) \<and> ds \<in> D \<and> ns \<in> E)"
proof
  assume m0: "s \<in> conc {a} (conc (insert [] {g0}) (conc {b} (conc D (conc {e} E))))"
  from m0 obtain u1 v1 where 1: "s = u1 @ v1" "u1 \<in> {a}"
    and m1: "v1 \<in> conc (insert [] {g0}) (conc {b} (conc D (conc {e} E)))" by (rule concE)
  from m1 obtain g v2 where 2: "v1 = g @ v2" "g \<in> insert [] {g0}"
    and m2: "v2 \<in> conc {b} (conc D (conc {e} E))" by (rule concE)
  from m2 obtain u3 v3 where 3: "v2 = u3 @ v3" "u3 \<in> {b}"
    and m3: "v3 \<in> conc D (conc {e} E)" by (rule concE)
  from m3 obtain ds v4 where 4: "v3 = ds @ v4" "ds \<in> D"
    and m4: "v4 \<in> conc {e} E" by (rule concE)
  from m4 obtain u5 ns where 5: "v4 = u5 @ ns" "u5 \<in> {e}" "ns \<in> E" by (rule concE)
  from 1 2 3 4 5 have "s = a @ g @ b @ ds @ e @ ns" by simp
  moreover from 2 have "g = [] \<or> g = g0" by simp
  ultimately show "\<exists>g ds ns. s = a @ g @ b @ ds @ e @ ns \<and> (g = [] \<or> g = g0) \<and> ds \<in> D \<and> ns \<in> E"
    using 4(2) 5(3) by (intro exI conjI)
next
  assume "\<exists>g ds ns. s = a @ g @ b @ ds @ e @ ns \<and> (g = [] \<or> g = g0) \<and> ds \<in> D \<and> ns \<in> E"
  then obtain g ds ns where s: "s = a @ g @ b @ ds @ e @ ns" and g: "g = [] \<or> g = g0"
    and ds: "ds \<in> D" and ns: "ns \<in> E" by (elim exE conjE)
  have e: "e \<in> {e}" and b: "b \<in> {b}" and a: "a \<in> {a}" by simp_all
  from g have g': "g \<in> insert [] {g0}" by auto
  from e ns have "e @ ns \<in> conc {e} E" by (rule concI)
  with ds have "ds @ e @ ns \<in> conc D (conc {e} E)" by (rule concI)
  with b have "b @ ds @ e @ ns \<in> conc {b} (conc D (conc {e} E))" by (rule concI)
  with g' have "g @ b @ ds @ e @ ns \<in> conc (insert [] {g0}) (conc {b} (conc D (conc {e} E)))"
    by (rule concI)
  with a have "a @ g @ b @ ds @ e @ ns
      \<in> conc {a} (conc (insert [] {g0}) (conc {b} (conc D (conc {e} E))))"
    by (rule concI)
  then show "s \<in> conc {a} (conc (insert [] {g0}) (conc {b} (conc D (conc {e} E))))"
    by (simp only: s)
qed

lemma MatchString_mfaArnRegex:
  "MatchString mfaArnRegex s \<longleftrightarrow>
     (\<exists>g ds ns. s = ''arn:aws'' @ g @ '':iam::'' @ ds @ '':mfa/'' @ ns \<and>
        (g = [] \<or> g = ''-us-gov'') \<and> (ds \<noteq> [] \<and> list_all isDigit ds) \<and>
        (ns \<noteq> [] \<and> list_all isEntity ns))"
  unfolding MatchString_lang mfaArnRegex_def lang.simps(5) lang_lit lang_opt
    arn_shape mem_lang_plus1_Atom ..

lemma MatchString_spec_mfaArnRegex:
  "MatchString spec_mfaArnRegex s \<longleftrightarrow>
     (\<exists>g ds ns. s = ''arn:aws'' @ g @ '':iam::'' @ ds @ '':mfa/'' @ ns \<and>
        (g = [] \<or> g = ''-us-gov'') \<and> (length ds = 12 \<and> list_all isDigit ds) \<and>
        (ns \<noteq> [] \<and> list_all isEntity ns))"
  unfolding MatchString_lang spec_mfaArnRegex_def lang.simps(5) lang_lit lang_opt
    arn_shape mem_lang_plus1_Atom mem_lang_rep_Atom ..

lemma MatchString_mfaCodeRegex:
  "MatchString mfaCodeRegex s \<longleftrightarrow> length s = 6 \<and> list_all isDigit s"
  by (simp add: MatchString_lang mfaCodeRegex_def mem_lang_rep_Atom)

section \<open>Lifetime\<close>

text \<open>
  Claim C2. \<^verbatim>\<open>SetLifetime\<close> succeeds exactly for 0 and for the values from 900 to 3600,
  read as signed 64-bit numbers, and then stores the value; every other value gives the
  out-of-range error. \<^verbatim>\<open>GetLifetime\<close> returns 3600 when the stored value is 0, be it
  never set or set to 0, and the stored value otherwise.
\<close>

theorem Lifetime_range:
  "(fst (SetLifetime l v) = None \<longleftrightarrow> v = 0 \<or> (900 \<le> sint v \<and> sint v \<le> 3600)) \<and>
   (fst (SetLifetime l v) = None \<longrightarrow> snd (SetLifetime l v) = l\<lparr>lifetimeInt := v\<rparr>) \<and>
   (fst (SetLifetime l v) \<noteq> None \<longrightarrow> fst (SetLifetime l v) = Some (LifetimeOutOfRange v)) \<and>
   fst (GetLifetime l) = Inr (if lifetimeInt l = 0 then 3600 else lifetimeInt l) \<and>
   fst (GetLifetime freshLifetime) = Inr 3600 \<and>
   fst (GetLifetime (snd (SetLifetime l 0))) = Inr 3600 \<and>
   (fst (SetLifetime l v) = None \<and> v \<noteq> 0 \<longrightarrow>
      fst (GetLifetime (snd (SetLifetime l v))) = Inr v)"
  by (auto simp: SetLifetime_def GetLifetime_def freshLifetime_def Let_def)

theorem Lifetime_range_witness:
  "fst (SetLifetime freshLifetime 900) = None \<and>
   fst (GetLifetime (snd (SetLifetime freshLifetime 900))) = Inr 900 \<and>
   fst (SetLifetime freshLifetime 899) = Some (LifetimeOutOfRange 899) \<and>
   fst (SetLifetime freshLifetime 3601) = Some (LifetimeOutOfRange 3601) \<and>
   fst (SetLifetime freshLifetime (- 1)) = Some (LifetimeOutOfRange (- 1))"
proof -
  have a: "fst (SetLifetime freshLifetime 900) = None"
    using Lifetime_range [of freshLifetime 900] by simp
  have a': "fst (GetLifetime (snd (SetLifetime freshLifetime 900))) = Inr 900"
  proof -
    have "(900 :: 64 word) \<noteq> 0" by simp
    with a Lifetime_range [of freshLifetime 900] show ?thesis by blast
  qed
  have b: "fst (SetLifetime freshLifetime 899) = Some (LifetimeOutOfRange 899)"
    using Lifetime_range [of freshLifetime 899] by simp
  have c: "fst (SetLifetime freshLifetime 3601) = Some (LifetimeOutOfRange 3601)"
    using Lifetime_range [of freshLifetime 3601] by simp
  have d: "fst (SetLifetime freshLifetime (- 1)) = Some (LifetimeOutOfRange (- 1))"
    using Lifetime_range [of freshLifetime "- 1"] by simp
  from a a' b c d show ?thesis by (intro conjI)
qed

section \<open>The setters of Mfa\<close>

text \<open>
  Claim C1, as amended. \<^verbatim>\<open>SetMfaSerial\<close> succeeds, and stores the text, exactly when the
  text is empty or reads \<^verbatim>\<open>arn:aws\<close>, then \<^verbatim>\<open>-us-gov\<close> or nothing, then \<^verbatim>\<open>:iam::\<close>,
  then one or more digits, then \<^verbatim>\<open>:mfa/\<close>, then one or more characters of a name; every
  other text gives the malformed-serial error and leaves the object as it was. The account
  is any non-empty run of digits, not twelve of them.
\<close>

theorem SetMfaSerial_pattern:
  "(fst (SetMfaSerial m s) = None \<longleftrightarrow>
      s = [] \<or>
      (\<exists>g ds ns. s = ''arn:aws'' @ g @ '':iam::'' @ ds @ '':mfa/'' @ ns \<and>
         (g = [] \<or> g = ''-us-gov'') \<and> (ds \<noteq> [] \<and> list_all isDigit ds) \<and>
         (ns \<noteq> [] \<and> list_all isEntity ns))) \<and>
   (fst (SetMfaSerial m s) = None \<longrightarrow> snd (SetMfaSerial m s) = m\<lparr>mfaSerial := s\<rparr>) \<and>
   (fst (SetMfaSerial m s) \<noteq> None \<longrightarrow>
      SetMfaSerial m s = (Some (MfaSerialMalformed s), m))"
  unfolding MatchString_mfaArnRegex [symmetric]
  by (simp add: SetMfaSerial_def)

theorem SetMfaSerial_pattern_witness:
  "SetMfaSerial freshMfa ''arn:aws-us-gov:iam::123456789012:mfa/alice'' =
     (None, freshMfa\<lparr>mfaSerial := ''arn:aws-us-gov:iam::123456789012:mfa/alice''\<rparr>) \<and>
   SetMfaSerial freshMfa ''arn:aws:iam::12:mfa/'' =
     (Some (MfaSerialMalformed ''arn:aws:iam::12:mfa/''), freshMfa)"
proof -
  let ?s = "''arn:aws-us-gov:iam::123456789012:mfa/alice''"
  have "?s = ''arn:aws'' @ ''-us-gov'' @ '':iam::'' @ ''123456789012'' @ '':mfa/'' @ ''alice''"
    by simp
  moreover have "list_all isDigit ''123456789012''" "list_all isEntity ''alice''"
    by (simp_all add: isDigit_def isEntity_def isWord_def)
  ultimately have
    "\<exists>g ds ns. ?s = ''arn:aws'' @ g @ '':iam::'' @ ds @ '':mfa/'' @ ns \<and>
         (g = [] \<or> g = ''-us-gov'') \<and> (ds \<noteq> [] \<and> list_all isDigit ds) \<and>
         (ns \<noteq> [] \<and> list_all isEntity ns)"
    by (intro exI [of _ "''-us-gov''"] exI [of _ "''123456789012''"] exI [of _ "''alice''"])
      simp
  with SetMfaSerial_pattern [of freshMfa ?s]
  have a: "SetMfaSerial freshMfa ?s = (None, freshMfa\<lparr>mfaSerial := ?s\<rparr>)"
    by (simp add: prod_eq_iff)
  have "\<not> MatchString mfaArnRegex ''arn:aws:iam::12:mfa/''"
    by code_simp
  then have "fst (SetMfaSerial freshMfa ''arn:aws:iam::12:mfa/'') \<noteq> None"
    by (simp add: SetMfaSerial_def)
  with SetMfaSerial_pattern [of freshMfa "''arn:aws:iam::12:mfa/''"]
  have b: "SetMfaSerial freshMfa ''arn:aws:iam::12:mfa/'' =
     (Some (MfaSerialMalformed ''arn:aws:iam::12:mfa/''), freshMfa)"
    by blast
  from a b show ?thesis by (rule conjI)
qed

text \<open>
  The claim as first stated asks for an account of exactly twelve digits. A serial with
  the account \<^verbatim>\<open>1\<close> is accepted and stored, though it does not match the pattern with
  twelve digits.
\<close>

theorem SetMfaSerial_short_account:
  "fst (SetMfaSerial freshMfa ''arn:aws:iam::1:mfa/x'') = None \<and>
   mfaSerial (snd (SetMfaSerial freshMfa ''arn:aws:iam::1:mfa/x'')) = ''arn:aws:iam::1:mfa/x'' \<and>
   ''arn:aws:iam::1:mfa/x'' \<noteq> [] \<and>
   \<not> MatchString spec_mfaArnRegex ''arn:aws:iam::1:mfa/x''"
proof -
  have 1: "MatchString mfaArnRegex ''arn:aws:iam::1:mfa/x''" by code_simp
  have 2: "\<not> MatchString spec_mfaArnRegex ''arn:aws:iam::1:mfa/x''" by code_simp
  from 1 2 show ?thesis by (simp add: SetMfaSerial_def)
qed

text \<open>
  Claim C9. A setter that returns an error leaves the object as it was: a lifetime out of
  range, a serial that is not empty and does not match, and a code that is not empty and
  is not six digits each give the error beside the unchanged object.
\<close>

theorem failed_setter_keeps_state:
  "(v \<noteq> 0 \<and> (sint v < 900 \<or> 3600 < sint v) \<longrightarrow>
      SetLifetime l v = (Some (LifetimeOutOfRange v), l)) \<and>
   (s \<noteq> [] \<and> \<not> MatchString mfaArnRegex s \<longrightarrow>
      SetMfaSerial m s = (Some (MfaSerialMalformed s), m)) \<and>
   (c \<noteq> [] \<and> \<not> (length c = 6 \<and> list_all isDigit c) \<longrightarrow>
      SetMfaCode m c = (Some (MfaCodeMalformed c), m)) \<and>
   (fst (SetLifetime l v) \<noteq> None \<longrightarrow> snd (SetLifetime l v) = l) \<and>
   (fst (SetMfaSerial m s) \<noteq> None \<longrightarrow> snd (SetMfaSerial m s) = m) \<and>
   (fst (SetMfaCode m c) \<noteq> None \<longrightarrow> snd (SetMfaCode m c) = m)"
  by (simp add: SetLifetime_def SetMfaSerial_def SetMfaCode_def MatchString_mfaCodeRegex)

theorem failed_setter_keeps_state_witness:
  "SetLifetime \<lparr>lifetimeInt = 1800\<rparr> 60 = (Some (LifetimeOutOfRange 60), \<lparr>lifetimeInt = 1800\<rparr>) \<and>
   SetMfaSerial someMfa ''alice'' = (Some (MfaSerialMalformed ''alice''), someMfa) \<and>
   SetMfaCode someMfa ''12345'' = (Some (MfaCodeMalformed ''12345''), someMfa)"
proof -
  have "\<not> MatchString mfaArnRegex ''alice''" by code_simp
  then show ?thesis
    using failed_setter_keeps_state
      [of 60 "\<lparr>lifetimeInt = 1800\<rparr>" "''alice''" someMfa "''12345''"]
    by simp
qed

section \<open>The use of MFA\<close>

text \<open>
  Once \<^verbatim>\<open>useMfa\<close> is set, no method other than \<^verbatim>\<open>SetMfa(false)\<close> clears it.
\<close>

lemma step_keeps_useMfa:
  assumes "useMfa m" and "x \<noteq> CallSetMfa False"
  shows "useMfa (fst (step svc ask x (m, n)))"
proof (cases x)
  case (CallSetMfa b)
  with assms show ?thesis by (simp add: SetMfa_def)
next
  case (CallSetMfaSerial s)
  with assms show ?thesis by (simp add: SetMfaSerial_def)
next
  case (CallSetMfaCode s)
  with assms show ?thesis by (simp add: SetMfaCode_def)
next
  case (CallSetMfaPrompt p)
  with assms show ?thesis by (simp add: SetMfaPrompt_def)
next
  case CallGetMfa
  with assms show ?thesis by (simp add: GetMfa_def)
next
  case CallGetMfaSerial
  with assms show ?thesis
    by (simp add: GetMfaSerial_def split: prod.splits sum.splits)
next
  case CallGetMfaCode
  with assms show ?thesis
    by (auto simp: GetMfaCode_def GetMfaPrompt_def split: prod.splits sum.splits option.splits)
next
  case CallGetMfaPrompt
  with assms show ?thesis by (simp add: GetMfaPrompt_def split: option.splits)
qed

lemma run_keeps_useMfa:
  "useMfa m \<Longrightarrow> CallSetMfa False \<notin> set calls \<Longrightarrow> useMfa (fst (run svc ask calls (m, n)))"
proof (induction calls arbitrary: m n)
  case Nil
  then show ?case by simp
next
  case (Cons x xs)
  from Cons.prems have "useMfa (fst (step svc ask x (m, n)))"
    by (intro step_keeps_useMfa) auto
  moreover from Cons.prems have "CallSetMfa False \<notin> set xs" by simp
  ultimately have "useMfa (fst (run svc ask xs (fst (step svc ask x (m, n)), snd (step svc ask x (m, n)))))"
    by (rule Cons.IH)
  then show ?case by simp
qed

lemma GetMfa_useMfa: "fst (GetMfa m) = Inr (useMfa (snd (GetMfa m)))"
  by (simp add: GetMfa_def Let_def)

text \<open>
  Claim C10, as amended. \<^verbatim>\<open>GetMfa\<close> called while the stored code is not empty returns
  true and sets \<^verbatim>\<open>useMfa\<close> in the object. From then on, after any sequence of calls of
  the methods of the object that does not contain \<^verbatim>\<open>SetMfa(false)\<close>, \<^verbatim>\<open>useMfa\<close> is still
  set and \<^verbatim>\<open>GetMfa\<close> returns true; so it does after the code is cleared with
  \<^verbatim>\<open>SetMfaCode("")\<close>.
\<close>

theorem GetMfa_sticky:
  assumes "mfaCode m \<noteq> []" and "CallSetMfa False \<notin> set calls"
  shows "fst (GetMfa m) = Inr True \<and> useMfa (snd (GetMfa m)) \<and>
    useMfa (fst (run svc ask calls (snd (GetMfa m), n))) \<and>
    fst (GetMfa (fst (run svc ask calls (snd (GetMfa m), n)))) = Inr True \<and>
    mfaCode (snd (SetMfaCode (snd (GetMfa m)) [])) = [] \<and>
    fst (GetMfa (snd (SetMfaCode (snd (GetMfa m)) []))) = Inr True"
proof -
  from assms(1) have on: "useMfa (snd (GetMfa m))"
    by (simp add: GetMfa_def Let_def)
  then have first: "fst (GetMfa m) = Inr True"
    by (simp add: GetMfa_useMfa)
  from on assms(2) have later: "useMfa (fst (run svc ask calls (snd (GetMfa m), n)))"
    by (rule run_keeps_useMfa)
  then have again: "fst (GetMfa (fst (run svc ask calls (snd (GetMfa m), n)))) = Inr True"
    by (simp add: GetMfa_def)
  have cleared: "mfaCode (snd (SetMfaCode (snd (GetMfa m)) [])) = []"
    by (simp add: SetMfaCode_def)
  from on have "useMfa (snd (SetMfaCode (snd (GetMfa m)) []))"
    by (simp add: SetMfaCode_def)
  then have still: "fst (GetMfa (snd (SetMfaCode (snd (GetMfa m)) []))) = Inr True"
    by (simp add: GetMfa_def)
  from first on later again cleared still show ?thesis by (intro conjI)
qed

theorem GetMfa_sticky_witness:
  "fst (GetMfa codeMfa) = Inr True \<and>
   fst (GetMfa (fst (run userService silentPrompt
      [CallSetMfaCode [], CallSetMfaSerial [], CallGetMfaSerial, CallSetMfa True, CallGetMfaCode]
      (snd (GetMfa codeMfa), 0)))) = Inr True \<and>
   fst (GetMfa (snd (SetMfaCode (snd (GetMfa codeMfa)) []))) = Inr True"
proof -
  have "mfaCode codeMfa \<noteq> []" by (simp add: codeMfa_def)
  moreover have "CallSetMfa False \<notin>
      set [CallSetMfaCode [], CallSetMfaSerial [], CallGetMfaSerial, CallSetMfa True, CallGetMfaCode]"
    by simp
  ultimately show ?thesis
    using GetMfa_sticky [of codeMfa
        "[CallSetMfaCode [], CallSetMfaSerial [], CallGetMfaSerial, CallSetMfa True, CallGetMfaCode]"
        userService silentPrompt 0]
    by blast
qed

text \<open>
  The claim as first stated has MFA enabled for good. After the code is cleared,
  \<^verbatim>\<open>SetMfa(false)\<close> turns it off again, and \<^verbatim>\<open>GetMfa\<close> returns false.
\<close>

theorem GetMfa_revoked_by_SetMfa:
  "fst (GetMfa codeMfa) = Inr True \<and>
   useMfa (snd (GetMfa codeMfa)) \<and>
   fst (GetMfa (snd (SetMfa (snd (SetMfaCode (snd (GetMfa codeMfa)) [])) False))) = Inr False"
  by (simp add: GetMfa_def SetMfa_def SetMfaCode_def codeMfa_def)

section \<open>Searching a text\<close>

text \<open>
  \<^const>\<open>Index\<close> finds the first place where the separator starts, and none when the
  separator does not occur.
\<close>

lemma Index_Some_prefix:
  "Index s sub = Some i \<Longrightarrow> i \<le> length s \<and> prefix sub (drop i s)"
proof (induction s arbitrary: i)
  case Nil
  then show ?case by (simp split: if_splits)
next
  case (Cons c cs)
  show ?case
  proof (cases "prefix sub (c # cs)")
    case True
    with Cons.prems show ?thesis by simp
  next
    case False
    with Cons.prems obtain j where j: "Index cs sub = Some j" and i: "i = Suc j" by auto
    from Cons.IH [OF j] i show ?thesis by simp
  qed
qed

lemma Index_Some_least:
  "Index s sub = Some i \<Longrightarrow> j \<le> length s \<Longrightarrow> prefix sub (drop j s) \<Longrightarrow> i \<le> j"
proof (induction s arbitrary: i j)
  case Nil
  then show ?case by (simp split: if_splits)
next
  case (Cons c cs)
  show ?case
  proof (cases "prefix sub (c # cs)")
    case True
    with Cons.prems show ?thesis by simp
  next
    case False
    with Cons.prems(1) obtain i' where i': "Index cs sub = Some i'" and i: "i = Suc i'" by auto
    from False Cons.prems(3) obtain j' where j: "j = Suc j'" by (cases j) auto
    with Cons.prems have "j' \<le> length cs" and "prefix sub (drop j' cs)" by simp_all
    with i' have "i' \<le> j'" by (rule Cons.IH)
    with i j show ?thesis by simp
  qed
qed

lemma Index_None_prefix:
  "Index s sub = None \<Longrightarrow> j \<le> length s \<Longrightarrow> \<not> prefix sub (drop j s)"
proof (induction s arbitrary: j)
  case Nil
  then show ?case by (simp split: if_splits)
next
  case (Cons c cs)
  from Cons.prems(1) have np: "\<not> prefix sub (c # cs)" and n: "Index cs sub = None"
    by (auto split: if_splits)
  show ?case
  proof (cases j)
    case 0
    with np show ?thesis by simp
  next
    case (Suc j')
    with Cons.prems(2) have "j' \<le> length cs" by simp
    with n have "\<not> prefix sub (drop j' cs)" by (rule Cons.IH)
    with Suc show ?thesis by simp
  qed
qed

lemma occurs_prefix_drop:
  "s = pre @ sub @ post \<Longrightarrow> length pre \<le> length s \<and> prefix sub (drop (length pre) s)"
  by simp

lemma Contains_iff: "Contains s sub \<longleftrightarrow> (\<exists>pre post. s = pre @ sub @ post)"
proof
  assume "Contains s sub"
  then obtain i where i: "Index s sub = Some i" by (auto simp: Contains_def)
  from Index_Some_prefix [OF i] obtain post where "drop i s = sub @ post"
    by (auto simp: prefix_def)
  then have "s = take i s @ sub @ post" by (metis append_take_drop_id)
  then show "\<exists>pre post. s = pre @ sub @ post" by blast
next
  assume "\<exists>pre post. s = pre @ sub @ post"
  then obtain pre post where s: "s = pre @ sub @ post" by blast
  show "Contains s sub"
  proof (rule ccontr)
    assume "\<not> Contains s sub"
    then have "Index s sub = None" by (simp add: Contains_def)
    from Index_None_prefix [OF this, of "length pre"] s show False by simp
  qed
qed

lemma Index_first_occurrence:
  assumes s: "s = pre @ sub @ post"
    and least: "\<forall>pre' post'. s = pre' @ sub @ post' \<longrightarrow> length pre \<le> length pre'"
  shows "Index s sub = Some (length pre)"
proof -
  from s have "Contains s sub" unfolding Contains_iff by blast
  then obtain i where i: "Index s sub = Some i" by (auto simp: Contains_def)
  from Index_Some_least [OF i, of "length pre"] s have le: "i \<le> length pre" by simp
  from Index_Some_prefix [OF i] obtain post' where "drop i s = sub @ post'"
    by (auto simp: prefix_def)
  then have "s = take i s @ sub @ post'" by (metis append_take_drop_id)
  with least have "length pre \<le> length (take i s)" by blast
  with le have "i = length pre" by simp
  with i show ?thesis by simp
qed

lemma Index_Some_first_occurrence:
  assumes i: "Index s sub = Some i"
  shows "\<exists>post. s = take i s @ sub @ post \<and> length (take i s) = i \<and>
    (\<forall>pre' post'. s = pre' @ sub @ post' \<longrightarrow> i \<le> length pre')"
proof -
  from Index_Some_prefix [OF i] obtain post where il: "i \<le> length s" and "drop i s = sub @ post"
    by (auto simp: prefix_def)
  then have "s = take i s @ sub @ post" by (metis append_take_drop_id)
  moreover from il have "length (take i s) = i" by simp
  moreover have "i \<le> length pre'" if "s = pre' @ sub @ post'" for pre' post'
    using Index_Some_least [OF i, of "length pre'"] that by simp
  ultimately show ?thesis by blast
qed

lemma Replace_first:
  assumes "Index s old = Some i"
  shows "Replace s old new 1 = take i s @ new @ drop (i + length old) s"
proof -
  have "Replace s old new (Suc 0) = take i s @ new @ drop (i + length old) s"
    using assms by simp
  then show ?thesis by simp
qed

lemma Replace_absent: "Index s old = None \<Longrightarrow> Replace s old new n = s"
  by (cases n) simp_all
lemma Index_single:
  "Index s [c] = (if c \<in> set s then Some (length (takeWhile (\<lambda>x. x \<noteq> c) s)) else None)"
  by (induction s) auto

lemma Split_single_absent: "c \<notin> set s \<Longrightarrow> Split s [c] = [s]"
  by (subst Split.simps) (simp add: Index_single)

lemma Split_single_present:
  assumes "c \<in> set s"
  shows "Split s [c] =
    takeWhile (\<lambda>x. x \<noteq> c) s # Split (tl (dropWhile (\<lambda>x. x \<noteq> c) s)) [c]"
proof -
  let ?n = "length (takeWhile (\<lambda>x. x \<noteq> c) s)"
  have "take ?n s = takeWhile (\<lambda>x. x \<noteq> c) s"
    by (simp add: takeWhile_eq_take [symmetric])
  moreover have "drop (?n + length [c]) s = tl (dropWhile (\<lambda>x. x \<noteq> c) s)"
    by (simp add: dropWhile_eq_drop drop_Suc tl_drop)
  ultimately show ?thesis
    using assms by (subst Split.simps) (simp add: Index_single)
qed

lemma hd_Split_single:
  "Split s [c] \<noteq> [] \<and> hd (Split s [c]) = takeWhile (\<lambda>x. x \<noteq> c) s"
proof (cases "c \<in> set s")
  case True
  then show ?thesis by (simp add: Split_single_present)
next
  case False
  then have "\<forall>x\<in>set s. x \<noteq> c" by auto
  then have tw: "takeWhile (\<lambda>x. x \<noteq> c) s = s" by (simp only: takeWhile_eq_all_conv)
  show ?thesis unfolding Split_single_absent [OF False] tw by simp
qed

lemma Split_single_second:
  assumes "c \<in> set s"
  shows "1 < length (Split s [c]) \<and>
    Split s [c] ! 1 = takeWhile (\<lambda>x. x \<noteq> c) (tl (dropWhile (\<lambda>x. x \<noteq> c) s))"
proof -
  let ?rest = "Split (tl (dropWhile (\<lambda>x. x \<noteq> c) s)) [c]"
  from hd_Split_single [of "tl (dropWhile (\<lambda>x. x \<noteq> c) s)" c]
  have ne: "?rest \<noteq> []"
    and hd: "hd ?rest = takeWhile (\<lambda>x. x \<noteq> c) (tl (dropWhile (\<lambda>x. x \<noteq> c) s))"
    by simp_all
  from ne have "0 < length ?rest" by simp
  moreover from ne have "?rest ! 0 = hd ?rest" by (simp add: hd_conv_nth)
  ultimately show ?thesis
    using assms hd by (simp add: Split_single_present)
qed

section \<open>The ARN of the caller\<close>

text \<open>
  Claim C6. When the identity service answers and the ARN holds \<^verbatim>\<open>:user/\<close>,
  \<^verbatim>\<open>MfaArn\<close> returns the ARN with the first \<^verbatim>\<open>:user/\<close> replaced by \<^verbatim>\<open>:mfa/\<close>: for
  the one way to cut the ARN around its first \<^verbatim>\<open>:user/\<close>, the result is what stands
  before, \<^verbatim>\<open>:mfa/\<close>, and what stands after. When the ARN does not hold \<^verbatim>\<open>:user/\<close>,
  it returns the error for a caller that is not a user. Either way it asks the service once.
\<close>

theorem MfaArn_rewrites_user:
  assumes ident: "svc c n = Inr ident"
  shows
    "(Arn ident = pre @ '':user/'' @ post \<and>
      (\<forall>pre' post'. Arn ident = pre' @ '':user/'' @ post' \<longrightarrow> length pre \<le> length pre') \<longrightarrow>
        MfaArn svc c n = (Inr (pre @ '':mfa/'' @ post), Suc n)) \<and>
     ((\<exists>pre post. Arn ident = pre @ '':user/'' @ post) \<longrightarrow>
        (\<exists>pre post. Arn ident = pre @ '':user/'' @ post \<and>
           (\<forall>pre' post'. Arn ident = pre' @ '':user/'' @ post' \<longrightarrow> length pre \<le> length pre') \<and>
           MfaArn svc c n = (Inr (pre @ '':mfa/'' @ post), Suc n))) \<and>
     ((\<nexists>pre post. Arn ident = pre @ '':user/'' @ post) \<longrightarrow>
        MfaArn svc c n = (Inl (NonUser (Arn ident)), Suc n))"
proof (intro conjI impI)
  assume h: "Arn ident = pre @ '':user/'' @ post \<and>
      (\<forall>pre' post'. Arn ident = pre' @ '':user/'' @ post' \<longrightarrow> length pre \<le> length pre')"
  then have i: "Index (Arn ident) '':user/'' = Some (length pre)"
    by (intro Index_first_occurrence) blast+
  then have "Contains (Arn ident) '':user/''" by (simp add: Contains_def)
  moreover from h i have "Replace (Arn ident) '':user/'' '':mfa/'' 1 = pre @ '':mfa/'' @ post"
    by (simp add: Replace_first)
  ultimately show "MfaArn svc c n = (Inr (pre @ '':mfa/'' @ post), Suc n)"
    using ident by (simp add: MfaArn_def identity_def)
next
  assume "\<exists>pre post. Arn ident = pre @ '':user/'' @ post"
  then have c: "Contains (Arn ident) '':user/''" by (simp add: Contains_iff)
  then obtain i where i: "Index (Arn ident) '':user/'' = Some i" by (auto simp: Contains_def)
  from Index_Some_first_occurrence [OF i] obtain post where
    d: "Arn ident = take i (Arn ident) @ '':user/'' @ post"
    and l: "length (take i (Arn ident)) = i"
    and m: "\<forall>pre' post'. Arn ident = pre' @ '':user/'' @ post' \<longrightarrow> i \<le> length pre'"
    by blast
  from d l have "drop (i + length '':user/'') (Arn ident) = post"
    by (metis append.assoc append_eq_conv_conj length_append)
  with i have "Replace (Arn ident) '':user/'' '':mfa/'' 1 = take i (Arn ident) @ '':mfa/'' @ post"
    by (simp only: Replace_first)
  with c ident have "MfaArn svc c n = (Inr (take i (Arn ident) @ '':mfa/'' @ post), Suc n)"
    by (simp add: MfaArn_def identity_def)
  with d l m show "\<exists>pre post. Arn ident = pre @ '':user/'' @ post \<and>
           (\<forall>pre' post'. Arn ident = pre' @ '':user/'' @ post' \<longrightarrow> length pre \<le> length pre') \<and>
           MfaArn svc c n = (Inr (pre @ '':mfa/'' @ post), Suc n)"
    by (intro exI [of _ "take i (Arn ident)"] exI [of _ post]) simp
next
  assume "\<nexists>pre post. Arn ident = pre @ '':user/'' @ post"
  then have "\<not> Contains (Arn ident) '':user/''" by (simp add: Contains_iff)
  with ident show "MfaArn svc c n = (Inl (NonUser (Arn ident)), Suc n)"
    by (simp add: MfaArn_def identity_def)
qed

theorem MfaArn_rewrites_user_witness:
  "MfaArn userService emptyCreds 0 = (Inr ''arn:aws:iam::111111111111:mfa/alice'', Suc 0) \<and>
   MfaArn roleService emptyCreds 0 =
     (Inl (NonUser ''arn:aws:iam::111111111111:role/foo''), Suc 0)"
proof -
  let ?u = "\<lparr>Account = ''111111111111'', Arn = ''arn:aws:iam::111111111111:user/alice''\<rparr>"
  let ?r = "\<lparr>Account = ''111111111111'', Arn = ''arn:aws:iam::111111111111:role/foo''\<rparr>"
  have u: "userService emptyCreds 0 = Inr ?u" by (simp add: userService_def)
  have r: "roleService emptyCreds 0 = Inr ?r" by (simp add: roleService_def)
  have au: "Arn ?u = ''arn:aws:iam::111111111111:user/alice''" by simp
  have iu: "Index ''arn:aws:iam::111111111111:user/alice'' '':user/'' =
      Some (length ''arn:aws:iam::111111111111'')"
    by code_simp
  have ir: "Index ''arn:aws:iam::111111111111:role/foo'' '':user/'' = None" by code_simp
  have du: "Arn ?u = ''arn:aws:iam::111111111111'' @ '':user/'' @ ''alice''" by simp
  have mu: "\<forall>pre' post'. Arn ?u = pre' @ '':user/'' @ post' \<longrightarrow>
      length ''arn:aws:iam::111111111111'' \<le> length pre'"
    unfolding au using Index_Some_first_occurrence [OF iu] by blast
  from ir have nr: "\<nexists>pre post. Arn ?r = pre @ '':user/'' @ post"
    using Contains_iff [of "Arn ?r" "'':user/''"] by (simp add: Contains_def)
  from MfaArn_rewrites_user [where svc = userService and c = emptyCreds and n = 0
      and ident = ?u and pre = "''arn:aws:iam::111111111111''" and post = "''alice''", OF u]
    du mu
  have a: "MfaArn userService emptyCreds 0 = (Inr ''arn:aws:iam::111111111111:mfa/alice'', Suc 0)"
    by simp
  from MfaArn_rewrites_user [where svc = roleService and c = emptyCreds and n = 0
      and ident = ?r, OF r] nr
  have b: "MfaArn roleService emptyCreds 0 =
     (Inl (NonUser ''arn:aws:iam::111111111111:role/foo''), Suc 0)"
    by simp
  from a b show ?thesis by (rule conjI)
qed

text \<open>
  Claim C8. \<^verbatim>\<open>partition\<close> splits the ARN at the colons and takes the piece at index 1
  with no check of the number of pieces. When the ARN holds a colon there are at least two
  pieces, the access is in range, and the result is the text between the first colon and
  the next one (or the end). When the ARN holds no colon the split has the single piece
  and the access is out of range: the panic of the program.
\<close>

theorem partition_second_piece:
  assumes ident: "svc c n = Inr ident"
  shows
    "(CHR '':'' \<in> set (Arn ident) \<longrightarrow>
        1 < length (Split (Arn ident) '':'') \<and>
        partition svc c n = (Inr (Split (Arn ident) '':'' ! 1), Suc n) \<and>
        Split (Arn ident) '':'' ! 1 =
          takeWhile (\<lambda>x. x \<noteq> CHR '':'') (tl (dropWhile (\<lambda>x. x \<noteq> CHR '':'') (Arn ident)))) \<and>
     (CHR '':'' \<notin> set (Arn ident) \<longrightarrow>
        Split (Arn ident) '':'' = [Arn ident] \<and>
        partition svc c n = (Inl (IndexOutOfRange 1 1), Suc n))"
proof (intro conjI impI)
  assume colon: "CHR '':'' \<in> set (Arn ident)"
  from Split_single_second [OF colon]
  show len: "1 < length (Split (Arn ident) '':'')"
    and "Split (Arn ident) '':'' ! 1 =
      takeWhile (\<lambda>x. x \<noteq> CHR '':'') (tl (dropWhile (\<lambda>x. x \<noteq> CHR '':'') (Arn ident)))"
    by simp_all
  from ident len show "partition svc c n = (Inr (Split (Arn ident) '':'' ! 1), Suc n)"
    by (simp add: partition_def identity_def Let_def)
next
  assume "CHR '':'' \<notin> set (Arn ident)"
  then show one: "Split (Arn ident) '':'' = [Arn ident]"
    by (rule Split_single_absent)
  from ident show "partition svc c n = (Inl (IndexOutOfRange 1 1), Suc n)"
    by (simp add: partition_def identity_def Let_def one)
qed

theorem partition_second_piece_witness:
  "partition userService emptyCreds 0 = (Inr ''aws'', Suc 0) \<and>
   partition brokenService emptyCreds 0 = (Inl (IndexOutOfRange 1 1), Suc 0)"
proof -
  let ?u = "\<lparr>Account = ''111111111111'', Arn = ''arn:aws:iam::111111111111:user/alice''\<rparr>"
  let ?b = "\<lparr>Account = ''111111111111'', Arn = ''root''\<rparr>"
  have u: "userService emptyCreds 0 = Inr ?u" by (simp add: userService_def)
  have b: "brokenService emptyCreds 0 = Inr ?b" by (simp add: brokenService_def)
  have cu: "CHR '':'' \<in> set (Arn ?u)" by simp
  have cb: "CHR '':'' \<notin> set (Arn ?b)" by simp
  from partition_second_piece [where svc = userService and c = emptyCreds and n = 0
      and ident = ?u, OF u] cu
  have "partition userService emptyCreds 0 =
      (Inr (takeWhile (\<lambda>x. x \<noteq> CHR '':'') (tl (dropWhile (\<lambda>x. x \<noteq> CHR '':'') (Arn ?u)))), Suc 0)"
    by simp
  then have 1: "partition userService emptyCreds 0 = (Inr ''aws'', Suc 0)" by simp
  from partition_second_piece [where svc = brokenService and c = emptyCreds and n = 0
      and ident = ?b, OF b] cb
  have 2: "partition brokenService emptyCreds 0 = (Inl (IndexOutOfRange 1 1), Suc 0)"
    by simp
  from 1 2 show ?thesis by (rule conjI)
qed

section \<open>The serial read twice\<close>

lemma MfaArn_cases:
  "(\<exists>err. MfaArn svc c n = (Inl err, Suc n)) \<or>
   (\<exists>arn. arn \<noteq> [] \<and> MfaArn svc c n = (Inr arn, Suc n))"
proof (cases "svc c n")
  case (Inl err)
  then show ?thesis by (simp add: MfaArn_def identity_def)
next
  case (Inr ident)
  show ?thesis
  proof (cases "Index (Arn ident) '':user/''")
    case None
    with Inr show ?thesis by (simp add: MfaArn_def identity_def Contains_def)
  next
    case (Some i)
    with Inr show ?thesis
      by (simp add: MfaArn_def identity_def Contains_def Replace_first)
  qed
qed

text \<open>
  Claim C7, as amended. Take two calls of \<^verbatim>\<open>GetMfaSerial\<close> on one object with nothing
  in between. When the first call succeeds, its value is not empty, the two calls together
  ask the identity service at most once, and the second call returns the same value and
  leaves the object and the count of calls as the first left them. When the first call
  fails, nothing is stored, and the second call asks the service again.
\<close>

theorem GetMfaSerial_twice:
  "(fst (GetMfaSerial svc m n) = Inr a \<longrightarrow>
      a \<noteq> [] \<and>
      snd (snd (GetMfaSerial svc m n)) \<le> Suc n \<and>
      GetMfaSerial svc (fst (snd (GetMfaSerial svc m n))) (snd (snd (GetMfaSerial svc m n))) =
        (Inr a, fst (snd (GetMfaSerial svc m n)), snd (snd (GetMfaSerial svc m n)))) \<and>
   (fst (GetMfaSerial svc m n) = Inl err \<longrightarrow>
      GetMfaSerial svc m n = (Inl err, m, Suc n) \<and>
      snd (snd (GetMfaSerial svc (fst (snd (GetMfaSerial svc m n)))
        (snd (snd (GetMfaSerial svc m n))))) = Suc (Suc n))"
proof (cases "mfaSerial m = []")
  case False
  then show ?thesis by (simp add: GetMfaSerial_def)
next
  case True
  from MfaArn_cases [of svc emptyCreds n] show ?thesis
  proof (elim disjE exE conjE)
    fix e assume e: "MfaArn svc emptyCreds n = (Inl e, Suc n)"
    with True have 1: "GetMfaSerial svc m n = (Inl e, m, Suc n)"
      by (simp add: GetMfaSerial_def)
    from MfaArn_cases [of svc emptyCreds "Suc n"] True
    have "snd (snd (GetMfaSerial svc m (Suc n))) = Suc (Suc n)"
      by (auto simp: GetMfaSerial_def)
    with 1 show ?thesis by simp
  next
    fix arn assume ne: "arn \<noteq> []" and arn: "MfaArn svc emptyCreds n = (Inr arn, Suc n)"
    with True have 1: "GetMfaSerial svc m n = (Inr arn, m\<lparr>mfaSerial := arn\<rparr>, Suc n)"
      by (simp add: GetMfaSerial_def)
    from ne have "GetMfaSerial svc (m\<lparr>mfaSerial := arn\<rparr>) (Suc n) =
        (Inr arn, m\<lparr>mfaSerial := arn\<rparr>, Suc n)"
      by (simp add: GetMfaSerial_def)
    with 1 ne show ?thesis by auto
  qed
qed

theorem GetMfaSerial_twice_witness:
  "fst (GetMfaSerial userService freshMfa 0) = Inr ''arn:aws:iam::111111111111:mfa/alice'' \<and>
   GetMfaSerial userService (fst (snd (GetMfaSerial userService freshMfa 0)))
       (snd (snd (GetMfaSerial userService freshMfa 0))) =
     (Inr ''arn:aws:iam::111111111111:mfa/alice'',
      freshMfa\<lparr>mfaSerial := ''arn:aws:iam::111111111111:mfa/alice''\<rparr>, Suc 0)"
proof -
  have 1: "GetMfaSerial userService freshMfa 0 =
      (Inr ''arn:aws:iam::111111111111:mfa/alice'',
       freshMfa\<lparr>mfaSerial := ''arn:aws:iam::111111111111:mfa/alice''\<rparr>, Suc 0)"
    by (simp add: GetMfaSerial_def MfaArn_def identity_def userService_def freshMfa_def
        Contains_def)
  with GetMfaSerial_twice [of userService freshMfa 0 "''arn:aws:iam::111111111111:mfa/alice''"]
  show ?thesis by simp
qed

text \<open>
  The claim as first stated has at most one lookup in every case. With a caller that is a
  role the first call fails after one lookup and the second call makes a second one.
\<close>

theorem GetMfaSerial_failure_looks_up_again:
  "fst (GetMfaSerial roleService freshMfa 0) =
     Inl (NonUser ''arn:aws:iam::111111111111:role/foo'') \<and>
   snd (snd (GetMfaSerial roleService freshMfa 0)) = 1 \<and>
   snd (snd (GetMfaSerial roleService (fst (snd (GetMfaSerial roleService freshMfa 0)))
     (snd (snd (GetMfaSerial roleService freshMfa 0))))) = 2"
  by (simp add: GetMfaSerial_def MfaArn_def identity_def roleService_def freshMfa_def
      Contains_def)

section \<open>Credentials from a map\<close>

text \<open>
  Indexing a map gives the empty string both for a missing key and for a key that holds
  the empty string, so \<^verbatim>\<open>New\<close> depends on its argument through \<^const>\<open>mapIndex\<close> alone.
\<close>

lemma mapIndex_empty_iff: "mapIndex m k = [] \<longleftrightarrow> m k \<in> {None, Some []}"
  by (auto simp: mapIndex_def split: option.splits)

lemma requiredLoop_required:
  "requiredLoop m required =
     (if mapIndex m ''AccessKey'' = [] then Some (MissingRequiredKey ''AccessKey'')
      else if mapIndex m ''SecretKey'' = [] then Some (MissingRequiredKey ''SecretKey'')
      else if mapIndex m ''SessionToken'' = [] then Some (MissingRequiredKey ''SessionToken'')
      else None)"
  by (simp add: required_def mapIndex_def split: option.splits)

lemma New_mapIndex:
  "New m =
     (if mapIndex m ''AccessKey'' = [] then Inl (MissingRequiredKey ''AccessKey'')
      else if mapIndex m ''SecretKey'' = [] then Inl (MissingRequiredKey ''SecretKey'')
      else if mapIndex m ''SessionToken'' = [] then Inl (MissingRequiredKey ''SessionToken'')
      else Inr \<lparr>AccessKey = mapIndex m ''AccessKey'', SecretKey = mapIndex m ''SecretKey'',
                SessionToken = mapIndex m ''SessionToken'', Region = mapIndex m ''Region''\<rparr>)"
  by (simp add: New_def requiredLoop_required)

lemma New_cong:
  assumes "mapIndex m ''AccessKey'' = mapIndex m' ''AccessKey''"
    and "mapIndex m ''SecretKey'' = mapIndex m' ''SecretKey''"
    and "mapIndex m ''SessionToken'' = mapIndex m' ''SessionToken''"
    and "mapIndex m ''Region'' = mapIndex m' ''Region''"
  shows "New m = New m'"
  unfolding New_mapIndex assms ..

text \<open>
  Claim C3. \<^verbatim>\<open>New\<close> succeeds exactly when \<^verbatim>\<open>AccessKey\<close>, \<^verbatim>\<open>SecretKey\<close> and
  \<^verbatim>\<open>SessionToken\<close> are all present with non-empty values. When it fails the error names
  the first of the three, in that order, that is absent or empty. When it succeeds the
  credentials hold the three values and the \<^verbatim>\<open>Region\<close> of the map, empty when absent.
\<close>

theorem New_required_keys:
  "((\<exists>c. New m = Inr c) \<longleftrightarrow>
      m ''AccessKey'' \<notin> {None, Some []} \<and> m ''SecretKey'' \<notin> {None, Some []} \<and>
      m ''SessionToken'' \<notin> {None, Some []}) \<and>
   (m ''AccessKey'' \<in> {None, Some []} \<longrightarrow> New m = Inl (MissingRequiredKey ''AccessKey'')) \<and>
   (m ''AccessKey'' \<notin> {None, Some []} \<and> m ''SecretKey'' \<in> {None, Some []} \<longrightarrow>
      New m = Inl (MissingRequiredKey ''SecretKey'')) \<and>
   (m ''AccessKey'' \<notin> {None, Some []} \<and> m ''SecretKey'' \<notin> {None, Some []} \<and>
    m ''SessionToken'' \<in> {None, Some []} \<longrightarrow>
      New m = Inl (MissingRequiredKey ''SessionToken'')) \<and>
   (m ''AccessKey'' \<notin> {None, Some []} \<and> m ''SecretKey'' \<notin> {None, Some []} \<and>
    m ''SessionToken'' \<notin> {None, Some []} \<longrightarrow>
      New m = Inr \<lparr>AccessKey = the (m ''AccessKey''), SecretKey = the (m ''SecretKey''),
                    SessionToken = the (m ''SessionToken''),
                    Region = (case m ''Region'' of None \<Rightarrow> [] | Some r \<Rightarrow> r)\<rparr>)"
proof -
  have the: "m k \<notin> {None, Some []} \<Longrightarrow> mapIndex m k = the (m k)" for k
    by (auto simp: mapIndex_def split: option.splits)
  have region: "mapIndex m ''Region'' = (case m ''Region'' of None \<Rightarrow> [] | Some r \<Rightarrow> r)"
    by (simp add: mapIndex_def)
  show ?thesis
    unfolding New_mapIndex mapIndex_empty_iff region
    by (auto simp: the)
qed

theorem New_required_keys_witness:
  "New fullFields =
     Inr \<lparr>AccessKey = ''AK'', SecretKey = ''SK'', SessionToken = ''ST'', Region = ''us-east-1''\<rparr> \<and>
   New (fullFields(''Region'' := None)) =
     Inr \<lparr>AccessKey = ''AK'', SecretKey = ''SK'', SessionToken = ''ST'', Region = []\<rparr> \<and>
   New (fullFields(''SecretKey'' := None)) = Inl (MissingRequiredKey ''SecretKey'') \<and>
   New (fullFields(''AccessKey'' \<mapsto> [], ''SessionToken'' := None)) =
     Inl (MissingRequiredKey ''AccessKey'') \<and>
   New (fullFields(''SessionToken'' \<mapsto> [])) = Inl (MissingRequiredKey ''SessionToken'')"
proof -
  have 1: "New fullFields =
     Inr \<lparr>AccessKey = ''AK'', SecretKey = ''SK'', SessionToken = ''ST'', Region = ''us-east-1''\<rparr>"
    using New_required_keys [of fullFields] by (simp add: fullFields_def)
  have 2: "New (fullFields(''Region'' := None)) =
     Inr \<lparr>AccessKey = ''AK'', SecretKey = ''SK'', SessionToken = ''ST'', Region = []\<rparr>"
    using New_required_keys [of "fullFields(''Region'' := None)"] by (simp add: fullFields_def)
  have 3: "New (fullFields(''SecretKey'' := None)) = Inl (MissingRequiredKey ''SecretKey'')"
    using New_required_keys [of "fullFields(''SecretKey'' := None)"]
    by (simp add: fullFields_def)
  have 4: "New (fullFields(''AccessKey'' \<mapsto> [], ''SessionToken'' := None)) =
     Inl (MissingRequiredKey ''AccessKey'')"
    using New_required_keys [of "fullFields(''AccessKey'' \<mapsto> [], ''SessionToken'' := None)"]
    by (simp add: fullFields_def)
  have 5: "New (fullFields(''SessionToken'' \<mapsto> [])) = Inl (MissingRequiredKey ''SessionToken'')"
    using New_required_keys [of "fullFields(''SessionToken'' \<mapsto> [])"]
    by (simp add: fullFields_def)
  from 1 2 3 4 5 show ?thesis by (intro conjI)
qed

section \<open>Credentials from the environment\<close>

lemma mapIndex_upd: "mapIndex (m(k \<mapsto> v)) k' = (if k' = k then v else mapIndex m k')"
  by (simp add: mapIndex_def)

lemma NewFromEnvLoop_field:
  "mapIndex (NewFromEnvLoop env acc ks) f =
     (if mapIndex acc f \<noteq> [] then mapIndex acc f
      else spec_firstNonEmpty env (filter (\<lambda>k. mapIndex Translations_envvar k = f) ks))"
proof (induction ks arbitrary: acc)
  case Nil
  show ?case by simp
next
  case (Cons k ks)
  show ?case
    by (simp add: Cons.IH Let_def mapIndex_upd)
qed

lemma NewFromEnvLoop_empty:
  "mapIndex (NewFromEnvLoop env Map.empty ks) f =
     spec_firstNonEmpty env (filter (\<lambda>k. mapIndex Translations_envvar k = f) ks)"
proof -
  have "mapIndex Map.empty f = []" by (simp add: mapIndex_def)
  then show ?thesis by (simp only: NewFromEnvLoop_field if_False simp_thms)
qed

lemma spec_firstNonEmpty_single: "spec_firstNonEmpty env [k] = Getenv env k"
  by simp

lemma dom_Translations_envvar:
  "dom Translations_envvar =
     {''AWS_ACCESS_KEY_ID'', ''AWS_SECRET_ACCESS_KEY'', ''AWS_SESSION_TOKEN'',
      ''AWS_SECURITY_TOKEN'', ''AWS_DEFAULT_REGION''}"
  by (auto simp: Translations_envvar_def)

lemma Translations_envvar_fields:
  "mapIndex Translations_envvar ''AWS_ACCESS_KEY_ID'' = ''AccessKey''"
  "mapIndex Translations_envvar ''AWS_SECRET_ACCESS_KEY'' = ''SecretKey''"
  "mapIndex Translations_envvar ''AWS_SESSION_TOKEN'' = ''SessionToken''"
  "mapIndex Translations_envvar ''AWS_SECURITY_TOKEN'' = ''SessionToken''"
  "mapIndex Translations_envvar ''AWS_DEFAULT_REGION'' = ''Region''"
  by (simp_all add: Translations_envvar_def mapIndex_def)

lemma filter_single:
  assumes "distinct ks" and "x \<in> set ks" and "\<And>y. y \<in> set ks \<Longrightarrow> P y \<longleftrightarrow> y = x"
  shows "filter P ks = [x]"
  using assms
proof (induction ks)
  case Nil
  then show ?case by simp
next
  case (Cons k ks)
  show ?case
  proof (cases "k = x")
    case True
    with Cons.prems have "\<forall>y\<in>set ks. \<not> P y" by auto
    then have "filter P ks = []" by (simp add: filter_empty_conv)
    with True Cons.prems show ?thesis by simp
  next
    case False
    with Cons.prems have "filter P ks = [x]" by (intro Cons.IH) auto
    with False Cons.prems show ?thesis by auto
  qed
qed

lemma filter_pair:
  assumes "distinct ks" and "x \<in> set ks" and "y \<in> set ks" and "x \<noteq> y"
    and "\<And>z. z \<in> set ks \<Longrightarrow> P z \<longleftrightarrow> z = x \<or> z = y"
  shows "filter P ks = [x, y] \<or> filter P ks = [y, x]"
  using assms
proof (induction ks)
  case Nil
  then show ?case by simp
next
  case (Cons k ks)
  consider "k = x" | "k = y" | "k \<noteq> x" "k \<noteq> y" by blast
  then show ?case
  proof cases
    case 1
    with Cons.prems have "filter P ks = [y]" by (intro filter_single) auto
    with 1 Cons.prems show ?thesis by simp
  next
    case 2
    with Cons.prems have "filter P ks = [x]" by (intro filter_single) auto
    with 2 Cons.prems show ?thesis by simp
  next
    case 3
    with Cons.prems have "filter P ks = [x, y] \<or> filter P ks = [y, x]"
      by (intro Cons.IH) auto
    with 3 Cons.prems show ?thesis by auto
  qed
qed

lemma keyOrder_envvar_set:
  assumes "keyOrder Translations_envvar ks"
  shows "distinct ks"
    and "set ks = {''AWS_ACCESS_KEY_ID'', ''AWS_SECRET_ACCESS_KEY'', ''AWS_SESSION_TOKEN'',
      ''AWS_SECURITY_TOKEN'', ''AWS_DEFAULT_REGION''}"
  using assms by (simp_all add: keyOrder_def dom_Translations_envvar)

lemma envvar_cases:
  assumes "keyOrder Translations_envvar ks" and "k \<in> set ks"
  obtains "k = ''AWS_ACCESS_KEY_ID''" | "k = ''AWS_SECRET_ACCESS_KEY''"
    | "k = ''AWS_SESSION_TOKEN''" | "k = ''AWS_SECURITY_TOKEN''" | "k = ''AWS_DEFAULT_REGION''"
proof -
  from assms have "k \<in> {''AWS_ACCESS_KEY_ID'', ''AWS_SECRET_ACCESS_KEY'', ''AWS_SESSION_TOKEN'',
      ''AWS_SECURITY_TOKEN'', ''AWS_DEFAULT_REGION''}"
    by (simp only: keyOrder_envvar_set)
  then show thesis
    by (elim insertE emptyE) (erule that)+
qed

lemma keyOrder_envvar_filters:
  assumes ko: "keyOrder Translations_envvar ks"
  shows "filter (\<lambda>k. mapIndex Translations_envvar k = ''AccessKey'') ks = [''AWS_ACCESS_KEY_ID'']"
    and "filter (\<lambda>k. mapIndex Translations_envvar k = ''SecretKey'') ks = [''AWS_SECRET_ACCESS_KEY'']"
    and "filter (\<lambda>k. mapIndex Translations_envvar k = ''Region'') ks = [''AWS_DEFAULT_REGION'']"
    and "filter (\<lambda>k. mapIndex Translations_envvar k = ''SessionToken'') ks =
           filter (\<lambda>k. k = ''AWS_SESSION_TOKEN'' \<or> k = ''AWS_SECURITY_TOKEN'') ks"
    and "filter (\<lambda>k. k = ''AWS_SESSION_TOKEN'' \<or> k = ''AWS_SECURITY_TOKEN'') ks =
           [''AWS_SESSION_TOKEN'', ''AWS_SECURITY_TOKEN''] \<or>
         filter (\<lambda>k. k = ''AWS_SESSION_TOKEN'' \<or> k = ''AWS_SECURITY_TOKEN'') ks =
           [''AWS_SECURITY_TOKEN'', ''AWS_SESSION_TOKEN'']"
proof -
  note d = keyOrder_envvar_set(1) [OF ko] and s = keyOrder_envvar_set(2) [OF ko]
  have mem: "''AWS_ACCESS_KEY_ID'' \<in> set ks" "''AWS_SECRET_ACCESS_KEY'' \<in> set ks"
    "''AWS_SESSION_TOKEN'' \<in> set ks" "''AWS_SECURITY_TOKEN'' \<in> set ks"
    "''AWS_DEFAULT_REGION'' \<in> set ks"
    unfolding s by simp_all
  show "filter (\<lambda>k. mapIndex Translations_envvar k = ''AccessKey'') ks = [''AWS_ACCESS_KEY_ID'']"
  proof (rule filter_single [OF d mem(1)])
    fix y assume "y \<in> set ks"
    with ko show "(mapIndex Translations_envvar y = ''AccessKey'') = (y = ''AWS_ACCESS_KEY_ID'')"
      by (rule envvar_cases) (simp_all add: Translations_envvar_fields)
  qed
  show "filter (\<lambda>k. mapIndex Translations_envvar k = ''SecretKey'') ks = [''AWS_SECRET_ACCESS_KEY'']"
  proof (rule filter_single [OF d mem(2)])
    fix y assume "y \<in> set ks"
    with ko show "(mapIndex Translations_envvar y = ''SecretKey'') = (y = ''AWS_SECRET_ACCESS_KEY'')"
      by (rule envvar_cases) (simp_all add: Translations_envvar_fields)
  qed
  show "filter (\<lambda>k. mapIndex Translations_envvar k = ''Region'') ks = [''AWS_DEFAULT_REGION'']"
  proof (rule filter_single [OF d mem(5)])
    fix y assume "y \<in> set ks"
    with ko show "(mapIndex Translations_envvar y = ''Region'') = (y = ''AWS_DEFAULT_REGION'')"
      by (rule envvar_cases) (simp_all add: Translations_envvar_fields)
  qed
  show "filter (\<lambda>k. mapIndex Translations_envvar k = ''SessionToken'') ks =
           filter (\<lambda>k. k = ''AWS_SESSION_TOKEN'' \<or> k = ''AWS_SECURITY_TOKEN'') ks"
  proof (rule filter_cong [OF refl])
    fix y assume "y \<in> set ks"
    with ko show "(mapIndex Translations_envvar y = ''SessionToken'') =
        (y = ''AWS_SESSION_TOKEN'' \<or> y = ''AWS_SECURITY_TOKEN'')"
      by (rule envvar_cases) (simp_all add: Translations_envvar_fields)
  qed
  show "filter (\<lambda>k. k = ''AWS_SESSION_TOKEN'' \<or> k = ''AWS_SECURITY_TOKEN'') ks =
           [''AWS_SESSION_TOKEN'', ''AWS_SECURITY_TOKEN''] \<or>
         filter (\<lambda>k. k = ''AWS_SESSION_TOKEN'' \<or> k = ''AWS_SECURITY_TOKEN'') ks =
           [''AWS_SECURITY_TOKEN'', ''AWS_SESSION_TOKEN'']"
  proof (rule filter_pair [OF d mem(3) mem(4)])
    show "''AWS_SESSION_TOKEN'' \<noteq> ''AWS_SECURITY_TOKEN''" by simp
  qed simp
qed

lemma keyOrder_envOrderA: "keyOrder Translations_envvar envOrderA"
  by (simp add: keyOrder_def dom_Translations_envvar envOrderA_def)

lemma keyOrder_envOrderB: "keyOrder Translations_envvar envOrderB"
  by (simp add: keyOrder_def dom_Translations_envvar envOrderB_def insert_commute)

lemma twoTokens_env:
  "Getenv twoTokens ''AWS_ACCESS_KEY_ID'' = ''AK''"
  "Getenv twoTokens ''AWS_SECRET_ACCESS_KEY'' = ''SK''"
  "Getenv twoTokens ''AWS_SESSION_TOKEN'' = ''ST1''"
  "Getenv twoTokens ''AWS_SECURITY_TOKEN'' = ''ST2''"
  "Getenv twoTokens ''AWS_DEFAULT_REGION'' = []"
  by (simp_all add: Getenv_def mapIndex_def twoTokens_def)

text \<open>
  Claim C4, as amended. For every environment and every order in which the loop visits the
  table, \<^verbatim>\<open>NewFromEnv\<close> hands to \<^verbatim>\<open>New\<close> a map that holds, for each field, the first
  non-empty value among the variables of the field in the order of the visit:
  \<^verbatim>\<open>AccessKey\<close>, \<^verbatim>\<open>SecretKey\<close> and \<^verbatim>\<open>Region\<close> have one variable each, and
  \<^verbatim>\<open>SessionToken\<close> takes the token variable visited first when that is set and the other
  one otherwise. Either token variable may be the first: the order is the one of a range
  loop over a map, which the language leaves open.
\<close>

theorem NewFromEnv_first_seen:
  assumes ko: "keyOrder Translations_envvar ks"
  shows
    "NewFromEnv env ks =
       New [''AccessKey'' \<mapsto> Getenv env ''AWS_ACCESS_KEY_ID'',
            ''SecretKey'' \<mapsto> Getenv env ''AWS_SECRET_ACCESS_KEY'',
            ''SessionToken'' \<mapsto> spec_firstNonEmpty env
               (filter (\<lambda>k. k = ''AWS_SESSION_TOKEN'' \<or> k = ''AWS_SECURITY_TOKEN'') ks),
            ''Region'' \<mapsto> Getenv env ''AWS_DEFAULT_REGION''] \<and>
     (filter (\<lambda>k. k = ''AWS_SESSION_TOKEN'' \<or> k = ''AWS_SECURITY_TOKEN'') ks =
        [''AWS_SESSION_TOKEN'', ''AWS_SECURITY_TOKEN''] \<or>
      filter (\<lambda>k. k = ''AWS_SESSION_TOKEN'' \<or> k = ''AWS_SECURITY_TOKEN'') ks =
        [''AWS_SECURITY_TOKEN'', ''AWS_SESSION_TOKEN''])"
proof -
  note f = keyOrder_envvar_filters [OF ko]
  define a s t r where "a = Getenv env ''AWS_ACCESS_KEY_ID''"
    and "s = Getenv env ''AWS_SECRET_ACCESS_KEY''"
    and "t = spec_firstNonEmpty env
               (filter (\<lambda>k. k = ''AWS_SESSION_TOKEN'' \<or> k = ''AWS_SECURITY_TOKEN'') ks)"
    and "r = Getenv env ''AWS_DEFAULT_REGION''"
  have loop: "mapIndex (NewFromEnvLoop env Map.empty ks) ''AccessKey'' = a"
    "mapIndex (NewFromEnvLoop env Map.empty ks) ''SecretKey'' = s"
    "mapIndex (NewFromEnvLoop env Map.empty ks) ''SessionToken'' = t"
    "mapIndex (NewFromEnvLoop env Map.empty ks) ''Region'' = r"
    unfolding NewFromEnvLoop_empty f(1-4) spec_firstNonEmpty_single a_def s_def t_def r_def
    by (rule refl)+
  have fields: "mapIndex [''AccessKey'' \<mapsto> a, ''SecretKey'' \<mapsto> s, ''SessionToken'' \<mapsto> t,
        ''Region'' \<mapsto> r] ''AccessKey'' = a"
    "mapIndex [''AccessKey'' \<mapsto> a, ''SecretKey'' \<mapsto> s, ''SessionToken'' \<mapsto> t,
        ''Region'' \<mapsto> r] ''SecretKey'' = s"
    "mapIndex [''AccessKey'' \<mapsto> a, ''SecretKey'' \<mapsto> s, ''SessionToken'' \<mapsto> t,
        ''Region'' \<mapsto> r] ''SessionToken'' = t"
    "mapIndex [''AccessKey'' \<mapsto> a, ''SecretKey'' \<mapsto> s, ''SessionToken'' \<mapsto> t,
        ''Region'' \<mapsto> r] ''Region'' = r"
    by (simp_all add: mapIndex_def)
  have "New (NewFromEnvLoop env Map.empty ks) =
      New [''AccessKey'' \<mapsto> a, ''SecretKey'' \<mapsto> s, ''SessionToken'' \<mapsto> t, ''Region'' \<mapsto> r]"
    by (rule New_cong) (simp_all only: loop fields)
  then have "NewFromEnv env ks =
      New [''AccessKey'' \<mapsto> a, ''SecretKey'' \<mapsto> s, ''SessionToken'' \<mapsto> t, ''Region'' \<mapsto> r]"
    by (simp only: NewFromEnv_def)
  with f(5) show ?thesis
    unfolding a_def s_def t_def r_def by (rule conjI [rotated])
qed

theorem NewFromEnv_first_seen_witness:
  "NewFromEnv twoTokens envOrderA =
     Inr \<lparr>AccessKey = ''AK'', SecretKey = ''SK'', SessionToken = ''ST1'', Region = []\<rparr> \<and>
   NewFromEnv twoTokens envOrderB =
     Inr \<lparr>AccessKey = ''AK'', SecretKey = ''SK'', SessionToken = ''ST2'', Region = []\<rparr>"
proof -
  have fa: "filter (\<lambda>k. k = ''AWS_SESSION_TOKEN'' \<or> k = ''AWS_SECURITY_TOKEN'') envOrderA =
      [''AWS_SESSION_TOKEN'', ''AWS_SECURITY_TOKEN'']"
    by (simp add: envOrderA_def)
  have fb: "filter (\<lambda>k. k = ''AWS_SESSION_TOKEN'' \<or> k = ''AWS_SECURITY_TOKEN'') envOrderB =
      [''AWS_SECURITY_TOKEN'', ''AWS_SESSION_TOKEN'']"
    by (simp add: envOrderB_def)
  have a: "NewFromEnv twoTokens envOrderA =
     Inr \<lparr>AccessKey = ''AK'', SecretKey = ''SK'', SessionToken = ''ST1'', Region = []\<rparr>"
    using NewFromEnv_first_seen [OF keyOrder_envOrderA, of twoTokens]
    by (simp add: fa twoTokens_env New_mapIndex mapIndex_def)
  have b: "NewFromEnv twoTokens envOrderB =
     Inr \<lparr>AccessKey = ''AK'', SecretKey = ''SK'', SessionToken = ''ST2'', Region = []\<rparr>"
    using NewFromEnv_first_seen [OF keyOrder_envOrderB, of twoTokens]
    by (simp add: fb twoTokens_env New_mapIndex mapIndex_def)
  from a b show ?thesis by (rule conjI)
qed

text \<open>
  The claim as first stated has a fixed source win when both token variables are set. With
  \<^verbatim>\<open>AWS_SESSION_TOKEN=ST1\<close> and \<^verbatim>\<open>AWS_SECURITY_TOKEN=ST2\<close> the result holds \<^verbatim>\<open>ST1\<close>
  for one order of the loop and \<^verbatim>\<open>ST2\<close> for another.
\<close>

theorem NewFromEnv_order_decides:
  "keyOrder Translations_envvar envOrderA \<and> keyOrder Translations_envvar envOrderB \<and>
   NewFromEnv twoTokens envOrderA =
     Inr \<lparr>AccessKey = ''AK'', SecretKey = ''SK'', SessionToken = ''ST1'', Region = []\<rparr> \<and>
   NewFromEnv twoTokens envOrderB =
     Inr \<lparr>AccessKey = ''AK'', SecretKey = ''SK'', SessionToken = ''ST2'', Region = []\<rparr>"
proof -
  have a: "NewFromEnv twoTokens envOrderA =
     Inr \<lparr>AccessKey = ''AK'', SecretKey = ''SK'', SessionToken = ''ST1'', Region = []\<rparr>"
    by code_simp
  have b: "NewFromEnv twoTokens envOrderB =
     Inr \<lparr>AccessKey = ''AK'', SecretKey = ''SK'', SessionToken = ''ST2'', Region = []\<rparr>"
    by code_simp
  from keyOrder_envOrderA keyOrder_envOrderB a b show ?thesis by (intro conjI)
qed

section \<open>Credentials as shell exports\<close>

lemma TranslateLoop_apply:
  "TranslateLoop d old new ks k =
     (if k \<in> set ks then Some (mapIndex old (mapIndex d k)) else new k)"
  by (induction ks arbitrary: new) (auto simp: Let_def)

lemma dom_Translate: "dom (Translate c d ks) = set ks"
  by (auto simp: Translate_def TranslateLoop_apply dom_def)

lemma mapIndex_Translate:
  "k \<in> set ks \<Longrightarrow> mapIndex (Translate c d ks) k = mapIndex (toMap c) (mapIndex d k)"
  by (simp add: Translate_def TranslateLoop_apply mapIndex_def)

lemma toMap_fields:
  "mapIndex (toMap c) ''AccessKey'' = AccessKey c"
  "mapIndex (toMap c) ''SecretKey'' = SecretKey c"
  "mapIndex (toMap c) ''SessionToken'' = SessionToken c"
  "mapIndex (toMap c) ''Region'' = Region c"
  by (simp_all add: toMap_def mapIndex_def)

lemma ToEnvVarsLoop_eq:
  "ToEnvVarsLoop e res ks =
     res @ map (\<lambda>k. ''export '' @ k @ ''='' @ mapIndex e k) (filter (\<lambda>k. mapIndex e k \<noteq> []) ks)"
  by (induction ks arbitrary: res) (simp_all add: Let_def)

lemma envOrderSorted_set:
  "distinct envOrderSorted"
  "set envOrderSorted = {''AWS_ACCESS_KEY_ID'', ''AWS_SECRET_ACCESS_KEY'', ''AWS_SESSION_TOKEN'',
      ''AWS_SECURITY_TOKEN'', ''AWS_DEFAULT_REGION''}"
  by (simp_all add: envOrderSorted_def insert_commute)

lemma export_lines_sorted:
  "sorted
    ((if a \<noteq> [] then [''export AWS_ACCESS_KEY_ID='' @ a] else []) @
     (if r \<noteq> [] then [''export AWS_DEFAULT_REGION='' @ r] else []) @
     (if s \<noteq> [] then [''export AWS_SECRET_ACCESS_KEY='' @ s] else []) @
     (if t \<noteq> [] then [''export AWS_SECURITY_TOKEN='' @ t] else []) @
     (if t \<noteq> [] then [''export AWS_SESSION_TOKEN='' @ t] else []))"
  by simp

lemma export_lines_of_sorted_keys:
  assumes "v ''AWS_ACCESS_KEY_ID'' = a" and "v ''AWS_DEFAULT_REGION'' = r"
    and "v ''AWS_SECRET_ACCESS_KEY'' = s" and "v ''AWS_SECURITY_TOKEN'' = t"
    and "v ''AWS_SESSION_TOKEN'' = t"
  shows "map (\<lambda>k. ''export '' @ k @ ''='' @ v k) (filter (\<lambda>k. v k \<noteq> []) envOrderSorted) =
     (if a \<noteq> [] then [''export AWS_ACCESS_KEY_ID='' @ a] else []) @
     (if r \<noteq> [] then [''export AWS_DEFAULT_REGION='' @ r] else []) @
     (if s \<noteq> [] then [''export AWS_SECRET_ACCESS_KEY='' @ s] else []) @
     (if t \<noteq> [] then [''export AWS_SECURITY_TOKEN='' @ t] else []) @
     (if t \<noteq> [] then [''export AWS_SESSION_TOKEN='' @ t] else [])"
  by (simp add: envOrderSorted_def assms)

lemma ToEnvVars_lines:
  assumes ko: "keyOrder Translations_envvar ks"
    and ko': "keyOrder (Translate c Translations_envvar ks) ks'"
  shows "ToEnvVars c ks ks' =
     (if AccessKey c \<noteq> [] then [''export AWS_ACCESS_KEY_ID='' @ AccessKey c] else []) @
     (if Region c \<noteq> [] then [''export AWS_DEFAULT_REGION='' @ Region c] else []) @
     (if SecretKey c \<noteq> [] then [''export AWS_SECRET_ACCESS_KEY='' @ SecretKey c] else []) @
     (if SessionToken c \<noteq> [] then [''export AWS_SECURITY_TOKEN='' @ SessionToken c] else []) @
     (if SessionToken c \<noteq> [] then [''export AWS_SESSION_TOKEN='' @ SessionToken c] else [])"
    (is "_ = ?lines")
proof -
  define e where "e = Translate c Translations_envvar ks"
  define v where "v = mapIndex e"
  note s = keyOrder_envvar_set(2) [OF ko]
  have val: "v k = mapIndex (toMap c) (mapIndex Translations_envvar k)" if "k \<in> set ks" for k
    using that by (simp add: v_def e_def mapIndex_Translate)
  have v: "v ''AWS_ACCESS_KEY_ID'' = AccessKey c" "v ''AWS_DEFAULT_REGION'' = Region c"
    "v ''AWS_SECRET_ACCESS_KEY'' = SecretKey c" "v ''AWS_SECURITY_TOKEN'' = SessionToken c"
    "v ''AWS_SESSION_TOKEN'' = SessionToken c"
    by (simp_all add: val s Translations_envvar_fields toMap_fields)
  from ko' have d': "distinct ks'" and s': "set ks' = set ks"
    by (simp_all add: keyOrder_def dom_Translate)
  from s' have "set ks' = set envOrderSorted"
    by (simp only: s envOrderSorted_set)
  with d' have m: "mset ks' = mset envOrderSorted"
    by (simp add: set_eq_iff_mset_eq_distinct [symmetric] envOrderSorted_set(1))
  let ?line = "\<lambda>k. ''export '' @ k @ ''='' @ v k"
  have "mset (map ?line (filter (\<lambda>k. v k \<noteq> []) ks')) =
      mset (map ?line (filter (\<lambda>k. v k \<noteq> []) envOrderSorted))"
    by (simp only: mset_map mset_filter m)
  also have "map ?line (filter (\<lambda>k. v k \<noteq> []) envOrderSorted) = ?lines"
    using v by (rule export_lines_of_sorted_keys)
  finally have "mset ?lines = mset (map ?line (filter (\<lambda>k. v k \<noteq> []) ks'))"
    by (rule sym)
  then have "sort (map ?line (filter (\<lambda>k. v k \<noteq> []) ks')) = ?lines"
    using export_lines_sorted by (rule properties_for_sort)
  then show ?thesis
    by (simp add: ToEnvVars_def Let_def ToEnvVarsLoop_eq e_def [symmetric] v_def [symmetric])
qed

lemma table_value:
  "(\<exists>f. Translations_envvar k = Some f \<and> toMap c f = Some x) \<longleftrightarrow>
     k \<in> dom Translations_envvar \<and> x = mapIndex (toMap c) (mapIndex Translations_envvar k)"
proof
  assume "\<exists>f. Translations_envvar k = Some f \<and> toMap c f = Some x"
  then show "k \<in> dom Translations_envvar \<and>
      x = mapIndex (toMap c) (mapIndex Translations_envvar k)"
    by (auto simp: mapIndex_def)
next
  assume r: "k \<in> dom Translations_envvar \<and>
      x = mapIndex (toMap c) (mapIndex Translations_envvar k)"
  then have "k \<in> {''AWS_ACCESS_KEY_ID'', ''AWS_SECRET_ACCESS_KEY'', ''AWS_SESSION_TOKEN'',
      ''AWS_SECURITY_TOKEN'', ''AWS_DEFAULT_REGION''}"
    by (simp only: dom_Translations_envvar)
  then have "\<exists>f. Translations_envvar k = Some f \<and>
      toMap c f = Some (mapIndex (toMap c) (mapIndex Translations_envvar k))"
    by (elim insertE emptyE)
      (simp_all add: Translations_envvar_def toMap_def mapIndex_def)
  with r show "\<exists>f. Translations_envvar k = Some f \<and> toMap c f = Some x" by simp
qed

lemma keyOrder_Translate_envOrderB:
  "keyOrder (Translate c Translations_envvar envOrderA) envOrderB"
  using keyOrder_envOrderA keyOrder_envOrderB
  by (simp add: keyOrder_def dom_Translate)

text \<open>
  Claim C5, as amended. For every set of credentials and every order of the two loops,
  \<^verbatim>\<open>ToEnvVars\<close> returns the lines \<^verbatim>\<open>export KEY=VALUE\<close> of the variables of the table
  whose field is not empty, sorted: in this order the lines of \<^verbatim>\<open>AWS_ACCESS_KEY_ID\<close>,
  \<^verbatim>\<open>AWS_DEFAULT_REGION\<close>, \<^verbatim>\<open>AWS_SECRET_ACCESS_KEY\<close>, \<^verbatim>\<open>AWS_SECURITY_TOKEN\<close> and
  \<^verbatim>\<open>AWS_SESSION_TOKEN\<close>, the last two both with the session token. On the credentials of
  the example it returns four lines, with the line of \<^verbatim>\<open>AWS_SECURITY_TOKEN\<close> among them
  and no line for the region.
\<close>

theorem ToEnvVars_sorted_exports:
  assumes ko: "keyOrder Translations_envvar ks"
    and ko': "keyOrder (Translate c Translations_envvar ks) ks'"
  shows
    "set (ToEnvVars c ks ks') =
       {''export '' @ k @ ''='' @ v | k v.
          (\<exists>f. Translations_envvar k = Some f \<and> toMap c f = Some v) \<and> v \<noteq> []} \<and>
     sorted (ToEnvVars c ks ks') \<and>
     ToEnvVars c ks ks' =
       (if AccessKey c \<noteq> [] then [''export AWS_ACCESS_KEY_ID='' @ AccessKey c] else []) @
       (if Region c \<noteq> [] then [''export AWS_DEFAULT_REGION='' @ Region c] else []) @
       (if SecretKey c \<noteq> [] then [''export AWS_SECRET_ACCESS_KEY='' @ SecretKey c] else []) @
       (if SessionToken c \<noteq> [] then [''export AWS_SECURITY_TOKEN='' @ SessionToken c] else []) @
       (if SessionToken c \<noteq> [] then [''export AWS_SESSION_TOKEN='' @ SessionToken c] else []) \<and>
     (c = exampleCreds \<longrightarrow>
        ToEnvVars c ks ks' =
          [''export AWS_ACCESS_KEY_ID=AK'', ''export AWS_SECRET_ACCESS_KEY=SK'',
           ''export AWS_SECURITY_TOKEN=ST'', ''export AWS_SESSION_TOKEN=ST''])"
proof (intro conjI impI)
  note lines = ToEnvVars_lines [OF ko ko']
  show "ToEnvVars c ks ks' =
       (if AccessKey c \<noteq> [] then [''export AWS_ACCESS_KEY_ID='' @ AccessKey c] else []) @
       (if Region c \<noteq> [] then [''export AWS_DEFAULT_REGION='' @ Region c] else []) @
       (if SecretKey c \<noteq> [] then [''export AWS_SECRET_ACCESS_KEY='' @ SecretKey c] else []) @
       (if SessionToken c \<noteq> [] then [''export AWS_SECURITY_TOKEN='' @ SessionToken c] else []) @
       (if SessionToken c \<noteq> [] then [''export AWS_SESSION_TOKEN='' @ SessionToken c] else [])"
    by (rule lines)
  show "sorted (ToEnvVars c ks ks')"
    unfolding lines by (rule export_lines_sorted)
  show "ToEnvVars c ks ks' =
          [''export AWS_ACCESS_KEY_ID=AK'', ''export AWS_SECRET_ACCESS_KEY=SK'',
           ''export AWS_SECURITY_TOKEN=ST'', ''export AWS_SESSION_TOKEN=ST'']"
    if "c = exampleCreds"
    unfolding lines by (simp add: that exampleCreds_def)
  define e where "e = Translate c Translations_envvar ks"
  define g where "g = (\<lambda>k v. ''export '' @ k @ ''='' @ v)"
  define w where "w = (\<lambda>k. mapIndex (toMap c) (mapIndex Translations_envvar k))"
  from ko' have s': "set ks' = dom Translations_envvar"
    using ko by (simp add: keyOrder_def dom_Translate)
  have val: "mapIndex e k = w k" if "k \<in> dom Translations_envvar" for k
    using that ko by (simp add: e_def w_def mapIndex_Translate keyOrder_def)
  have "set (ToEnvVars c ks ks') =
      (\<lambda>k. g k (mapIndex e k)) ` {k \<in> set ks'. mapIndex e k \<noteq> []}"
    by (simp add: ToEnvVars_def Let_def ToEnvVarsLoop_eq e_def [symmetric] g_def)
  also have "\<dots> = (\<lambda>k. g k (w k)) ` {k \<in> dom Translations_envvar. w k \<noteq> []}"
    unfolding s'
  proof (rule image_cong)
    show "{k \<in> dom Translations_envvar. mapIndex e k \<noteq> []} =
        {k \<in> dom Translations_envvar. w k \<noteq> []}"
      by (rule Collect_cong) (metis val)
    show "g k (mapIndex e k) = g k (w k)"
      if "k \<in> {k \<in> dom Translations_envvar. w k \<noteq> []}" for k
      using that val by simp
  qed
  also have "\<dots> = {g k v | k v. (k \<in> dom Translations_envvar \<and> v = w k) \<and> v \<noteq> []}"
    by blast
  finally have "set (ToEnvVars c ks ks') =
      {g k v | k v. (k \<in> dom Translations_envvar \<and> v = w k) \<and> v \<noteq> []}" .
  then show "set (ToEnvVars c ks ks') =
       {''export '' @ k @ ''='' @ v | k v.
          (\<exists>f. Translations_envvar k = Some f \<and> toMap c f = Some v) \<and> v \<noteq> []}"
    unfolding table_value g_def w_def .
qed

theorem ToEnvVars_sorted_exports_witness:
  "ToEnvVars exampleCreds envOrderA envOrderB =
     [''export AWS_ACCESS_KEY_ID=AK'', ''export AWS_SECRET_ACCESS_KEY=SK'',
      ''export AWS_SECURITY_TOKEN=ST'', ''export AWS_SESSION_TOKEN=ST''] \<and>
   sorted (ToEnvVars exampleCreds envOrderA envOrderB)"
proof -
  note t = ToEnvVars_sorted_exports [OF keyOrder_envOrderA
      keyOrder_Translate_envOrderB [of exampleCreds]]
  from t have 1: "sorted (ToEnvVars exampleCreds envOrderA envOrderB)"
    by (elim conjE)
  from t have "exampleCreds = exampleCreds \<longrightarrow>
      ToEnvVars exampleCreds envOrderA envOrderB =
        [''export AWS_ACCESS_KEY_ID=AK'', ''export AWS_SECRET_ACCESS_KEY=SK'',
         ''export AWS_SECURITY_TOKEN=ST'', ''export AWS_SESSION_TOKEN=ST'']"
    by (elim conjE)
  then have 2: "ToEnvVars exampleCreds envOrderA envOrderB =
        [''export AWS_ACCESS_KEY_ID=AK'', ''export AWS_SECRET_ACCESS_KEY=SK'',
         ''export AWS_SECURITY_TOKEN=ST'', ''export AWS_SESSION_TOKEN=ST'']"
    by (rule mp) (rule refl)
  from 2 1 show ?thesis by (rule conjI)
qed

text \<open>
  The claim as first stated gives three lines for the example. The table maps
  \<^verbatim>\<open>AWS_SECURITY_TOKEN\<close> to the session token as well, so the result has a fourth line.
\<close>

theorem ToEnvVars_example_has_security_token:
  "keyOrder Translations_envvar envOrderA \<and>
   keyOrder (Translate exampleCreds Translations_envvar envOrderA) envOrderB \<and>
   ToEnvVars exampleCreds envOrderA envOrderB =
     [''export AWS_ACCESS_KEY_ID=AK'', ''export AWS_SECRET_ACCESS_KEY=SK'',
      ''export AWS_SECURITY_TOKEN=ST'', ''export AWS_SESSION_TOKEN=ST''] \<and>
   ToEnvVars exampleCreds envOrderA envOrderB \<noteq>
     [''export AWS_ACCESS_KEY_ID=AK'', ''export AWS_SECRET_ACCESS_KEY=SK'',
      ''export AWS_SESSION_TOKEN=ST'']"
proof -
  have "ToEnvVars exampleCreds envOrderA envOrderB =
     [''export AWS_ACCESS_KEY_ID=AK'', ''export AWS_SECRET_ACCESS_KEY=SK'',
      ''export AWS_SECURITY_TOKEN=ST'', ''export AWS_SESSION_TOKEN=ST'']"
    by code_simp
  then show ?thesis
    by (simp add: keyOrder_envOrderA keyOrder_Translate_envOrderB)
qed

section \<open>The older copy in package utils\<close>

text \<open>
  \<^verbatim>\<open>utils.Creds.New\<close> succeeds and fails as \<^verbatim>\<open>creds.New\<close> does, with the same key in the
  error, and stores the same three values. \<^verbatim>\<open>utils.Creds.ToEnvVars\<close> differs: on the zero
  value it returns four lines with empty values.
\<close>

lemma utils_New_as_New:
  "utils_New c m =
     (case New m of
        Inl e \<Rightarrow> (Some e, c)
      | Inr c' \<Rightarrow>
          (None, c\<lparr>utils_AccessKey := AccessKey c', utils_SecretKey := SecretKey c',
                    utils_SessionToken := SessionToken c'\<rparr>))"
  by (simp add: utils_New_def New_def split: option.splits)

lemma utils_order_keyOrder:
  "keyOrder utils_translations_envvar utils_order \<and>
   keyOrder (utils_translate c utils_translations_envvar utils_order) utils_order"
  by (auto simp: keyOrder_def utils_translations_envvar_def utils_order_def utils_translate_def
      TranslateLoop_apply dom_def)

lemma utils_ToEnvVars_keeps_empty:
  "utils_ToEnvVars utils_zero utils_order utils_order =
     [''export AWS_ACCESS_KEY_ID='', ''export AWS_SECRET_ACCESS_KEY='',
      ''export AWS_SECURITY_TOKEN='', ''export AWS_SESSION_TOKEN='']"
  by code_simp

end
